theory Spec2Isabelle
  imports Main "HOL-Library.Word"
begin

unbundle bit_operations_syntax

section \<open>Constants and data of snippet-expander-win.c\<close>

abbreviation MAX_KEYWORDS :: nat where "MAX_KEYWORDS \<equiv> 512"
abbreviation MAX_KEYWORD_LEN :: nat where "MAX_KEYWORD_LEN \<equiv> 128"
abbreviation MAX_TOKEN_LEN :: nat where "MAX_TOKEN_LEN \<equiv> 512"

abbreviation NUL :: char where "NUL \<equiv> CHR 0x00"

text \<open>
  A C string is modelled by a \<open>string\<close>; what \<open>strcmp\<close>, \<open>strcpy\<close>, \<open>printf("%s")\<close> and a
  loop \<open>for (...; p[i]; ...)\<close> see of it is the part before the first NUL byte.
\<close>

definition cstr :: "string \<Rightarrow> string" where
  "cstr xs = takeWhile (\<lambda>c. c \<noteq> NUL) xs"

text \<open>\<open>tolower\<close> of the C locale (the program never calls \<open>setlocale\<close>): only A..Z change.\<close>

definition tolower :: "char \<Rightarrow> char" where
  "tolower c = (let n = (of_char c :: nat) in if 65 \<le> n \<and> n \<le> 90 then char_of (n + 32) else c)"

text \<open>One line written to standard output. \<open>emit_keyword\<close> prints the keyword and the delimiter;
  the delimiter \<open>'\\0'\<close> is the sentinel of a match found on the token-character path.\<close>

datatype message = Ready | KeywordMatch string char | Error string

text \<open>
  The globals of the program. \<open>g_keywords\<close> holds the rows \<open>0 .. g_keyword_count - 1\<close> of the
  table, each as the string stored in it, so \<open>g_keyword_count\<close> is the length of the list.
  \<open>g_token\<close> holds the \<open>g_token_len\<close> bytes of the buffer (the code keeps a NUL right after
  them). \<open>stdout_lines\<close> is what has been printed so far. \<open>to_unicode_calls\<close> counts the calls of
  \<open>ToUnicodeEx\<close>; the program has no such variable, it records the effect on the layout engine.
\<close>

record engine =
  g_keywords :: "string list"
  g_max_keyword_len :: nat
  g_allowed :: "char \<Rightarrow> bool"
  g_delimiters :: "char \<Rightarrow> bool"
  g_token :: string
  stdout_lines :: "message list"
  to_unicode_calls :: nat

abbreviation g_keyword_count :: "engine \<Rightarrow> nat" where
  "g_keyword_count s \<equiv> length (g_keywords s)"

abbreviation g_token_len :: "engine \<Rightarrow> nat" where
  "g_token_len s \<equiv> length (g_token s)"

section \<open>The token matching engine\<close>

definition emit_ready :: "engine \<Rightarrow> engine" where
  "emit_ready s = s\<lparr>stdout_lines := stdout_lines s @ [Ready]\<rparr>"

definition emit_error :: "string \<Rightarrow> engine \<Rightarrow> engine" where
  "emit_error msg s = s\<lparr>stdout_lines := stdout_lines s @ [Error msg]\<rparr>"

definition clear_token :: "engine \<Rightarrow> engine" where
  "clear_token s = s\<lparr>g_token := []\<rparr>"

definition trim_token_to_max :: "engine \<Rightarrow> engine" where
  "trim_token_to_max s =
     (if g_token_len s \<le> g_max_keyword_len s then s
      else let keep = g_max_keyword_len s;
               remove = g_token_len s - keep
           in s\<lparr>g_token := take keep (drop remove (g_token s))\<rparr>)"

text \<open>The loop of \<open>keyword_index\<close> from row \<open>i\<close> on, over the rows not yet compared.\<close>

fun keyword_scan :: "string list \<Rightarrow> string \<Rightarrow> nat \<Rightarrow> int" where
  "keyword_scan [] text i = - 1"
| "keyword_scan (k # ks) text i = (if k = text then int i else keyword_scan ks text (Suc i))"

definition keyword_index :: "engine \<Rightarrow> string \<Rightarrow> int" where
  "keyword_index s text =
     (if cstr text = [] then - 1 else keyword_scan (g_keywords s) (cstr text) 0)"

definition emit_keyword :: "string \<Rightarrow> char \<Rightarrow> engine \<Rightarrow> engine" where
  "emit_keyword keyword delimiter s =
     s\<lparr>stdout_lines := stdout_lines s @ [KeywordMatch (cstr keyword) delimiter]\<rparr>"

definition process_char :: "char \<Rightarrow> engine \<Rightarrow> engine" where
  "process_char raw s =
     (let c = tolower raw in
      if g_allowed s c then
        (let s1 = (if g_token_len s < MAX_TOKEN_LEN then s\<lparr>g_token := g_token s @ [c]\<rparr> else s);
             s2 = trim_token_to_max s1
         in if keyword_index s2 (g_token s2) \<ge> 0
            then clear_token (emit_keyword (g_token s2) NUL s2)
            else s2)
      else if g_delimiters s c then
        (let s1 = (if g_token_len s > 0 \<and> keyword_index s (g_token s) \<ge> 0
                   then emit_keyword (g_token s) c s else s)
         in clear_token s1)
      else clear_token s)"

section \<open>The keyword registry\<close>

text \<open>The copy loop of \<open>append_keyword\<close>: it stops at the NUL of \<open>src\<close> or when \<open>buf\<close> holds
  \<open>MAX_KEYWORD_LEN\<close> bytes; \<open>buf\<close> is the part written so far.\<close>

fun copy_lower :: "string \<Rightarrow> string \<Rightarrow> string" where
  "copy_lower [] buf = buf"
| "copy_lower (x # xs) buf =
     (if x \<noteq> NUL \<and> length buf < MAX_KEYWORD_LEN then copy_lower xs (buf @ [tolower x]) else buf)"

text \<open>\<open>None\<close> is the NULL pointer. The result is the returned \<open>int\<close> and the globals afterwards.
  The duplicate loop is the comparison loop of \<open>keyword_index\<close>.\<close>

definition append_keyword :: "string option \<Rightarrow> engine \<Rightarrow> int \<times> engine" where
  "append_keyword src s =
     (case src of
        None \<Rightarrow> (0, s)
      | Some text \<Rightarrow>
          if g_keyword_count s \<ge> MAX_KEYWORDS then (0, s)
          else let buf = copy_lower text []; n = length buf in
            if n = 0 then (0, s)
            else if keyword_scan (g_keywords s) buf 0 \<ge> 0 then (1, s)
            else (1, s\<lparr>g_keywords := g_keywords s @ [buf],
                        g_max_keyword_len := (if n > g_max_keyword_len s then n else g_max_keyword_len s)\<rparr>))"

text \<open>The scanner loop of \<open>parse_keywords_json\<close> over the bytes of \<open>json\<close>; \<open>current\<close> holds the
  \<open>cur_len\<close> bytes collected of the string literal being read.\<close>

fun parse_loop :: "string \<Rightarrow> bool \<Rightarrow> bool \<Rightarrow> string \<Rightarrow> engine \<Rightarrow> engine" where
  "parse_loop [] in_string escaped current s = s"
| "parse_loop (ch # rest) in_string escaped current s =
     (if ch = NUL then s
      else if \<not> in_string then
        (if ch = CHR 0x22 then parse_loop rest True False [] s
         else parse_loop rest in_string escaped current s)
      else if escaped then
        (let out = (if ch = CHR ''n'' then CHR 0x0A
                    else if ch = CHR ''r'' then CHR 0x0D
                    else if ch = CHR ''t'' then CHR 0x09 else ch)
         in parse_loop rest in_string False
              (if length current < MAX_KEYWORD_LEN then current @ [out] else current) s)
      else if ch = CHR 0x5C then parse_loop rest in_string True current s
      else if ch = CHR 0x22 then
        parse_loop rest False escaped current (snd (append_keyword (Some current) s))
      else parse_loop rest in_string escaped
             (if length current < MAX_KEYWORD_LEN then current @ [ch] else current) s)"

definition parse_keywords_json :: "string option \<Rightarrow> engine \<Rightarrow> int \<times> engine" where
  "parse_keywords_json json s =
     (case json of
        None \<Rightarrow> (0, s)
      | Some text \<Rightarrow>
          let s' = parse_loop text False False [] s
          in (if g_keyword_count s' > 0 then 1 else 0, s'))"

section \<open>The character classifier\<close>

definition default_delimiters :: string where
  "default_delimiters =
     [CHR '' '', CHR 0x09, CHR 0x0D, CHR 0x0A] @ ''.,!?;:()[]{}<>/'' @ [CHR 0x5C]
       @ ''|@#$%^&*+=`~'' @ [CHR 0x22, CHR 0x27]"

text \<open>The four loops of \<open>seed_charsets\<close> after the two \<open>memset\<close>s; 97..122 is a..z and
  48..57 is 0..9.\<close>

definition seed_charsets :: "engine \<Rightarrow> engine" where
  "seed_charsets s =
     (let a0 = (\<lambda>c. False);
          d0 = (\<lambda>c. False);
          a1 = fold (\<lambda>n a. a(char_of n := True)) [97 ..< 123 :: nat] a0;
          a2 = fold (\<lambda>n a. a(char_of n := True)) [48 ..< 58 :: nat] a1;
          a3 = a2(CHR ''-'' := True);
          a4 = a3(CHR ''_'' := True);
          d1 = fold (\<lambda>p d. d(p := True)) (cstr default_delimiters) d0
      in s\<lparr>g_allowed := a4, g_delimiters := d1\<rparr>)"

text \<open>The inner loop of \<open>apply_keyword_chars_to_charsets\<close> over the bytes of one keyword.\<close>

fun apply_chars :: "string \<Rightarrow> engine \<Rightarrow> engine" where
  "apply_chars [] s = s"
| "apply_chars (x # xs) s =
     (if x = NUL then s
      else let c = tolower x in
        if c = CHR 0x0D \<or> c = CHR 0x0A \<or> c = CHR 0x09 \<or> c = CHR '' '' then apply_chars xs s
        else apply_chars xs (s\<lparr>g_allowed := (g_allowed s)(c := True),
                                 g_delimiters := (g_delimiters s)(c := False)\<rparr>))"

definition apply_keyword_chars_to_charsets :: "engine \<Rightarrow> engine" where
  "apply_keyword_chars_to_charsets s = fold apply_chars (g_keywords s) s"

section \<open>Key events\<close>

text \<open>Values of the Windows SDK headers.\<close>

abbreviation VK_BACK :: "32 word" where "VK_BACK \<equiv> 0x08"
abbreviation HC_ACTION :: int where "HC_ACTION \<equiv> 0"
abbreviation WM_KEYDOWN :: "64 word" where "WM_KEYDOWN \<equiv> 0x0100"
abbreviation WM_SYSKEYDOWN :: "64 word" where "WM_SYSKEYDOWN \<equiv> 0x0104"

text \<open>
  One call of \<open>process_key_event\<close>: its two arguments and what the operating system answers
  while it runs: \<open>GetAsyncKeyState\<close> for the four modifier keys, whether \<open>GetKeyboardState\<close>
  succeeds, and the return value and buffer of the first \<open>ToUnicodeEx\<close> (which writes
  \<open>to_unicode_rc\<close> code units when that is positive).
\<close>

record key_event =
  vk :: "32 word"
  scan_code :: "32 word"
  async_control :: "16 word"
  async_menu :: "16 word"
  async_lwin :: "16 word"
  async_rwin :: "16 word"
  keyboard_state_ok :: bool
  to_unicode_rc :: int
  to_unicode_wbuf :: "16 word list"

definition is_modifier_down :: "key_event \<Rightarrow> bool" where
  "is_modifier_down ev =
     (if async_control ev AND 0x8000 \<noteq> 0 then True
      else if async_menu ev AND 0x8000 \<noteq> 0 then True
      else if async_lwin ev AND 0x8000 \<noteq> 0 then True
      else if async_rwin ev AND 0x8000 \<noteq> 0 then True
      else False)"

text \<open>The loop over the decoded code units \<open>wbuf[0 .. rc - 1]\<close>.\<close>

fun process_units :: "16 word list \<Rightarrow> engine \<Rightarrow> engine" where
  "process_units [] s = s"
| "process_units (wc # rest) s =
     (if wc \<le> 0 \<or> wc > 127 then process_units rest (clear_token s)
      else process_units rest (process_char (char_of (unat wc)) s))"

definition process_key_event :: "key_event \<Rightarrow> engine \<Rightarrow> engine" where
  "process_key_event ev s =
     (if vk ev = VK_BACK then
        (if g_token_len s > 0 then s\<lparr>g_token := butlast (g_token s)\<rparr> else s)
      else if is_modifier_down ev then clear_token s
      else if \<not> keyboard_state_ok ev then clear_token s
      else let rc = to_unicode_rc ev;
               s1 = s\<lparr>to_unicode_calls := to_unicode_calls s + 1\<rparr>
           in if rc \<le> 0 then
                (if rc < 0 then s1\<lparr>to_unicode_calls := to_unicode_calls s1 + 1\<rparr> else s1)
              else process_units (take (nat rc) (to_unicode_wbuf ev)) s1)"

record hook_call =
  nCode :: int
  wParam :: "64 word"
  kb :: key_event

definition keyboard_hook :: "hook_call \<Rightarrow> engine \<Rightarrow> engine" where
  "keyboard_hook h s =
     (if nCode h = HC_ACTION \<and> (wParam h = WM_KEYDOWN \<or> wParam h = WM_SYSKEYDOWN)
      then process_key_event (kb h) s else s)"

section \<open>The process\<close>

text \<open>
  One call of \<open>GetMessage\<close>: the hook calls the system delivers while the thread waits in
  it, and its return value. The message loop runs over the calls observed so far; it has
  ended when one of them returned a value that is not positive.
\<close>

record get_message =
  hook_calls :: "hook_call list"
  result :: int

fun message_loop :: "get_message list \<Rightarrow> engine \<Rightarrow> engine \<times> bool" where
  "message_loop [] s = (s, False)"
| "message_loop (m # ms) s =
     (let s' = fold keyboard_hook (hook_calls m) s
      in if result m > 0 then message_loop ms s' else (s', True))"

definition initial :: engine where
  "initial = \<lparr>g_keywords = [], g_max_keyword_len = 1, g_allowed = (\<lambda>c. False),
              g_delimiters = (\<lambda>c. False), g_token = [], stdout_lines = [],
              to_unicode_calls = 0\<rparr>"

text \<open>
  \<open>main\<close> on the argument vector (\<open>argc\<close> is its length), with whether \<open>SetWindowsHookExW\<close>
  returns a hook and the calls of \<open>GetMessage\<close>. The result is the globals at the end and
  the exit code, \<open>None\<close> while the message loop has not ended.
\<close>

definition main :: "string list \<Rightarrow> bool \<Rightarrow> get_message list \<Rightarrow> engine \<times> int option" where
  "main argv hook_ok msgs =
     (if length argv < 2 then
        (emit_error ''Usage: snippet-expander-win <keywords-json>'' initial, Some 1)
      else let s1 = seed_charsets initial;
               (ok, s2) = parse_keywords_json (Some (argv ! 1)) s1
           in if ok = 0 then (emit_error ''Invalid or empty keywords JSON'' s2, Some 1)
              else let s3 = apply_keyword_chars_to_charsets s2
                   in if \<not> hook_ok then (emit_error ''SetWindowsHookEx failed'' s3, Some 2)
                      else let (s5, ended) = message_loop msgs (emit_ready s3)
                           in (s5, if ended then Some 0 else None))"

section \<open>Notions used by the properties\<close>

text \<open>The most recent \<open>n\<close> elements of a sequence.\<close>

definition most_recent :: "nat \<Rightarrow> 'a list \<Rightarrow> 'a list" where
  "most_recent n xs = drop (length xs - n) xs"

text \<open>The bytes the widening pass skips.\<close>

definition whitespace :: "char \<Rightarrow> bool" where
  "whitespace c \<longleftrightarrow> c = CHR 0x0D \<or> c = CHR 0x0A \<or> c = CHR 0x09 \<or> c = CHR '' ''"

text \<open>The bytes of the keywords \<open>ks\<close> that the widening pass moves into the token characters.\<close>

definition keyword_bytes :: "string list \<Rightarrow> char set" where
  "keyword_bytes ks = {c. \<exists>k \<in> set ks. \<exists>x \<in> set (cstr k). c = tolower x \<and> \<not> whitespace c}"

text \<open>What \<open>append_keyword\<close> makes of its argument: the first \<open>MAX_KEYWORD_LEN\<close> bytes of
  the C string, lower-cased.\<close>

definition normalised :: "string \<Rightarrow> string" where
  "normalised raw = map tolower (take MAX_KEYWORD_LEN (cstr raw))"

text \<open>The globals as \<open>main\<close> has them when it installs the hook, for the configuration \<open>json\<close>.\<close>

definition configured :: "string \<Rightarrow> engine" where
  "configured json =
     apply_keyword_chars_to_charsets (snd (parse_keywords_json (Some json) (seed_charsets initial)))"

text \<open>
  What holds of the globals from then on. The registry: the table holds at most
  \<open>MAX_KEYWORDS\<close> distinct keywords, each lower-cased, of 1 to \<open>MAX_KEYWORD_LEN\<close> bytes and
  without NUL, and \<open>g_max_keyword_len\<close> is the length of the longest one.
\<close>

definition registry_ok :: "engine \<Rightarrow> bool" where
  "registry_ok s \<longleftrightarrow>
     g_keyword_count s \<le> MAX_KEYWORDS \<and> distinct (g_keywords s) \<and>
     (\<forall>k \<in> set (g_keywords s).
        k \<noteq> [] \<and> length k \<le> MAX_KEYWORD_LEN \<and> NUL \<notin> set k \<and> map tolower k = k) \<and>
     g_max_keyword_len s = Max (insert 1 (length ` set (g_keywords s)))"

text \<open>
  The classifier: no byte is both a token character and a delimiter; NUL is no token
  character; every delimiter is one of the default delimiters; every byte of a keyword
  that is not whitespace is a token character.
\<close>

definition classifier_ok :: "engine \<Rightarrow> bool" where
  "classifier_ok s \<longleftrightarrow>
     (\<forall>c. \<not> (g_allowed s c \<and> g_delimiters s c)) \<and>
     \<not> g_allowed s NUL \<and>
     (\<forall>c. g_delimiters s c \<longrightarrow> c \<in> set default_delimiters) \<and>
     (\<forall>k \<in> set (g_keywords s). \<forall>c \<in> set k. \<not> whitespace c \<longrightarrow> g_allowed s c)"

text \<open>The token buffer holds at most \<open>g_max_keyword_len\<close> bytes, none of them NUL.\<close>

definition well_formed :: "engine \<Rightarrow> bool" where
  "well_formed s \<longleftrightarrow>
     registry_ok s \<and> classifier_ok s \<and>
     g_token_len s \<le> g_max_keyword_len s \<and> NUL \<notin> set (g_token s)"

text \<open>The lines \<open>process_char\<close> prints for the character \<open>c\<close> in the state \<open>s\<close>.\<close>

definition emitted_by :: "char \<Rightarrow> engine \<Rightarrow> message list" where
  "emitted_by c s = drop (length (stdout_lines s)) (stdout_lines (process_char c s))"

text \<open>
  The run of token characters since the token buffer was last emptied, at the last position
  of an input that is processed from an empty buffer; the input is given most recent
  character first. A character that is no token character ends the run, and so does a
  match: after a match the run starts anew. \<open>K\<close> are the keywords, \<open>tok\<close> classifies the
  lower-cased characters, \<open>mx\<close> is the longest keyword length.
\<close>

fun run_since_reset_rev :: "string list \<Rightarrow> (char \<Rightarrow> bool) \<Rightarrow> nat \<Rightarrow> string \<Rightarrow> string" where
  "run_since_reset_rev K tok mx [] = []"
| "run_since_reset_rev K tok mx (c # earlier) =
     (if \<not> tok (tolower c) then []
      else if most_recent mx (run_since_reset_rev K tok mx earlier) \<in> set K then [tolower c]
      else run_since_reset_rev K tok mx earlier @ [tolower c])"

definition run_since_reset :: "string list \<Rightarrow> (char \<Rightarrow> bool) \<Rightarrow> nat \<Rightarrow> string \<Rightarrow> string" where
  "run_since_reset K tok mx input = run_since_reset_rev K tok mx (rev input)"

text \<open>The match line for the last position of \<open>input\<close>: the run since the last reset,
  trimmed to \<open>mx\<close> characters, when that is a keyword.\<close>

definition match_of_run :: "string list \<Rightarrow> (char \<Rightarrow> bool) \<Rightarrow> nat \<Rightarrow> string \<Rightarrow> message list" where
  "match_of_run K tok mx input =
     (let candidate = most_recent mx (run_since_reset K tok mx input)
      in if candidate \<in> set K then [KeywordMatch candidate NUL] else [])"

text \<open>
  Following the words of the claim: the most recent run of classified token characters of
  an input, that is, the lower-cased characters after the last one that is no token
  character.
\<close>

definition plain_run :: "(char \<Rightarrow> bool) \<Rightarrow> string \<Rightarrow> string" where
  "plain_run tok input = rev (takeWhile tok (rev (map tolower input)))"

text \<open>A sequence of calls of \<open>append_keyword\<close>, the returned values dropped as
  \<open>parse_keywords_json\<close> drops them.\<close>

definition register_all :: "string option list \<Rightarrow> engine \<Rightarrow> engine" where
  "register_all srcs s = fold (\<lambda>src t. snd (append_keyword src t)) srcs s"

text \<open>Keywords \<open>aa\<close>, \<open>ba\<close>, \<open>ca\<close>, ... that differ for different numbers below 676, and the
  registry after the first \<open>n\<close> of them have been registered.\<close>

definition numbered_keyword :: "nat \<Rightarrow> string" where
  "numbered_keyword i = [char_of (97 + i mod 26), char_of (97 + i div 26 mod 26)]"

definition filled :: "nat \<Rightarrow> engine" where
  "filled n = register_all (map (\<lambda>i. Some (numbered_keyword i)) [0 ..< n]) initial"

text \<open>Whether a printed line is an error message.\<close>

fun is_error :: "message \<Rightarrow> bool" where
  "is_error (Error msg) = True"
| "is_error other = False"

text \<open>The globals after the characters \<open>cs\<close> have been processed under the configuration
  \<open>json\<close>.\<close>

definition after_typing :: "string \<Rightarrow> string \<Rightarrow> engine" where
  "after_typing json cs = fold process_char cs (configured json)"

text \<open>Concrete inputs: the configurations \<open>["sig","sign"]\<close>, \<open>["a"]\<close> and
  \<open>["a","ab","abc"]\<close>, a press of Backspace, and a press of C while Ctrl is held.\<close>

definition example_json :: string where
  "example_json =
     [CHR 0x5B, CHR 0x22] @ ''sig'' @ [CHR 0x22, CHR '','', CHR 0x22] @ ''sign'' @ [CHR 0x22, CHR 0x5D]"

definition single_json :: string where
  "single_json = [CHR 0x5B, CHR 0x22] @ ''a'' @ [CHR 0x22, CHR 0x5D]"

definition nested_json :: string where
  "nested_json =
     [CHR 0x5B, CHR 0x22] @ ''a'' @ [CHR 0x22, CHR '','', CHR 0x22] @ ''ab''
       @ [CHR 0x22, CHR '','', CHR 0x22] @ ''abc'' @ [CHR 0x22, CHR 0x5D]"

definition backspace_press :: key_event where
  "backspace_press =
     \<lparr>vk = 0x08, scan_code = 0x0E, async_control = 0, async_menu = 0, async_lwin = 0,
      async_rwin = 0, keyboard_state_ok = True, to_unicode_rc = 1, to_unicode_wbuf = [0x08]\<rparr>"

definition ctrl_c_press :: key_event where
  "ctrl_c_press =
     \<lparr>vk = 0x43, scan_code = 0x2E, async_control = 0x8000, async_menu = 0, async_lwin = 0,
      async_rwin = 0, keyboard_state_ok = True, to_unicode_rc = 1, to_unicode_wbuf = [0x03]\<rparr>"

section \<open>Auxiliary facts\<close>

subsection \<open>Bytes and C strings\<close>

lemma of_char_tolower:
  "(of_char (tolower c) :: nat) =
     (if 65 \<le> (of_char c :: nat) \<and> (of_char c :: nat) \<le> 90 then of_char c + 32 else of_char c)"
  by (simp add: tolower_def Let_def)

lemma char_eq_nat_iff: "c = d \<longleftrightarrow> (of_char c :: nat) = of_char d"
  by simp

lemma tolower_NUL_iff [simp]: "tolower c = NUL \<longleftrightarrow> c = NUL"
  by (subst (1 2) char_eq_nat_iff) (simp add: of_char_tolower)

lemma NUL_tolower_iff [simp]: "NUL = tolower c \<longleftrightarrow> c = NUL"
  by (metis tolower_NUL_iff)

lemma tolower_NUL [simp]: "tolower NUL = NUL"
  by simp

lemma tolower_idem [simp]: "tolower (tolower c) = tolower c"
  by (subst char_eq_nat_iff) (simp add: of_char_tolower)

lemma tolower_letter:
  assumes "65 \<le> (of_char c :: nat)" and "(of_char c :: nat) \<le> 90"
  shows "\<exists>n \<in> {97 .. 122 :: nat}. tolower c = char_of n"
  using assms by (intro bexI [of _ "of_char c + 32"]) (simp_all add: tolower_def Let_def)

lemma tolower_other:
  "\<not> (65 \<le> (of_char c :: nat) \<and> (of_char c :: nat) \<le> 90) \<Longrightarrow> tolower c = c"
  by (auto simp add: tolower_def Let_def)

lemma cstr_id: "NUL \<notin> set xs \<Longrightarrow> cstr xs = xs"
  unfolding cstr_def by (rule takeWhile_eq_all_conv [THEN iffD2]) auto

lemma cstr_Nil [simp]: "cstr [] = []"
  by (simp add: cstr_def)

lemma NUL_notin_cstr [simp]: "NUL \<notin> set (cstr xs)"
  by (auto simp add: cstr_def dest: set_takeWhileD)

lemma map_fixed: "map f xs = xs \<Longrightarrow> x \<in> set xs \<Longrightarrow> f x = x"
  by (induction xs) auto

subsection \<open>Lookup\<close>

lemma keyword_scan_nonneg: "0 \<le> keyword_scan ks t i \<longleftrightarrow> t \<in> set ks"
  by (induction ks arbitrary: i) auto

lemma keyword_index_nonneg:
  "0 \<le> keyword_index s text \<longleftrightarrow> cstr text \<noteq> [] \<and> cstr text \<in> set (g_keywords s)"
  by (simp add: keyword_index_def keyword_scan_nonneg)

subsection \<open>The window\<close>

lemma most_recent_all: "length xs \<le> n \<Longrightarrow> most_recent n xs = xs"
  by (simp add: most_recent_def)

lemma length_most_recent: "length (most_recent n xs) = min n (length xs)"
  by (simp add: most_recent_def)

lemma set_most_recent: "set (most_recent n xs) \<subseteq> set xs"
  unfolding most_recent_def by (rule set_drop_subset)

lemma most_recent_snoc:
  "most_recent n (most_recent n xs @ [x]) = most_recent n (xs @ [x])"
  by (cases "length xs \<le> n") (auto simp add: most_recent_def Suc_diff_le)

lemma trim_token_to_max_eq:
  "trim_token_to_max s = s\<lparr>g_token := most_recent (g_max_keyword_len s) (g_token s)\<rparr>"
  by (simp add: trim_token_to_max_def most_recent_def Let_def)

text \<open>The token-character branch as one step of a window over the run.\<close>

lemma process_char_token:
  assumes "g_allowed s (tolower raw)" and "g_token_len s < MAX_TOKEN_LEN"
  shows "process_char raw s =
     (let w = most_recent (g_max_keyword_len s) (g_token s @ [tolower raw]) in
      if cstr w \<noteq> [] \<and> cstr w \<in> set (g_keywords s)
      then s\<lparr>g_token := [], stdout_lines := stdout_lines s @ [KeywordMatch (cstr w) NUL]\<rparr>
      else s\<lparr>g_token := w\<rparr>)"
  using assms
  by (simp add: process_char_def Let_def trim_token_to_max_eq keyword_index_nonneg
      clear_token_def emit_keyword_def)

lemma process_char_delimiter:
  assumes "\<not> g_allowed s (tolower raw)" and "g_delimiters s (tolower raw)"
  shows "process_char raw s =
     (if g_token s \<noteq> [] \<and> cstr (g_token s) \<noteq> [] \<and> cstr (g_token s) \<in> set (g_keywords s)
      then s\<lparr>g_token := [],
              stdout_lines := stdout_lines s @ [KeywordMatch (cstr (g_token s)) (tolower raw)]\<rparr>
      else s\<lparr>g_token := []\<rparr>)"
  using assms
  by (simp add: process_char_def Let_def keyword_index_nonneg clear_token_def emit_keyword_def)

lemma process_char_other:
  assumes "\<not> g_allowed s (tolower raw)" and "\<not> g_delimiters s (tolower raw)"
  shows "process_char raw s = s\<lparr>g_token := []\<rparr>"
  using assms by (simp add: process_char_def clear_token_def)

subsection \<open>What every step keeps\<close>

lemma Max_keyword_len_ge:
  "k \<in> set ks \<Longrightarrow> length k \<le> Max (insert 1 (length ` set ks))"
  by (rule Max_ge) auto

lemma Max_keyword_len_le:
  "\<forall>k \<in> set ks. length k \<le> n \<Longrightarrow> 1 \<le> n \<Longrightarrow> Max (insert 1 (length ` set ks)) \<le> n"
  by (subst Max_le_iff) auto

lemma Max_keyword_len_pos: "1 \<le> Max (insert 1 (length ` set ks))"
  by (rule Max_ge) auto

lemma well_formed_max:
  assumes "well_formed s"
  shows "1 \<le> g_max_keyword_len s" and "g_max_keyword_len s \<le> MAX_KEYWORD_LEN"
    and "g_token_len s < MAX_TOKEN_LEN"
proof -
  from assms have m: "g_max_keyword_len s = Max (insert 1 (length ` set (g_keywords s)))"
    and l: "\<forall>k \<in> set (g_keywords s). length k \<le> MAX_KEYWORD_LEN"
    and t: "g_token_len s \<le> g_max_keyword_len s"
    by (simp_all add: well_formed_def registry_ok_def classifier_ok_def)
  show "1 \<le> g_max_keyword_len s" unfolding m by (rule Max_keyword_len_pos)
  show u: "g_max_keyword_len s \<le> MAX_KEYWORD_LEN"
    unfolding m using l by (intro Max_keyword_len_le) simp_all
  from t u show "g_token_len s < MAX_TOKEN_LEN" by simp
qed

lemma well_formed_token_update:
  assumes "well_formed s" and "length t \<le> g_max_keyword_len s" and "NUL \<notin> set t"
  shows "well_formed (s\<lparr>g_token := t\<rparr>)"
  using assms by (simp add: well_formed_def registry_ok_def classifier_ok_def)

lemma well_formed_stdout_update:
  "well_formed (s\<lparr>stdout_lines := out\<rparr>) = well_formed s"
  by (simp add: well_formed_def registry_ok_def classifier_ok_def)

lemma well_formed_calls_update:
  "well_formed (s\<lparr>to_unicode_calls := n\<rparr>) = well_formed s"
  by (simp add: well_formed_def registry_ok_def classifier_ok_def)

lemma well_formed_clear: "well_formed s \<Longrightarrow> well_formed (clear_token s)"
  by (simp add: clear_token_def well_formed_token_update)

lemma well_formed_process_char:
  assumes "well_formed s"
  shows "well_formed (process_char raw s)"
proof (cases "g_allowed s (tolower raw)")
  case True
  let ?w = "most_recent (g_max_keyword_len s) (g_token s @ [tolower raw])"
  from assms True have "tolower raw \<noteq> NUL" by (auto simp add: well_formed_def registry_ok_def classifier_ok_def)
  moreover from assms have "NUL \<notin> set (g_token s)" by (simp add: well_formed_def registry_ok_def classifier_ok_def)
  ultimately have "NUL \<notin> set (g_token s @ [tolower raw])" by simp
  then have "NUL \<notin> set ?w"
    using set_most_recent [of "g_max_keyword_len s" "g_token s @ [tolower raw]"] by blast
  moreover have "length ?w \<le> g_max_keyword_len s" by (simp add: length_most_recent)
  ultimately have "well_formed (s\<lparr>g_token := ?w\<rparr>)" and "well_formed (s\<lparr>g_token := []\<rparr>)"
    using assms by (simp_all add: well_formed_token_update)
  then show ?thesis
    using True well_formed_max(3) [OF assms]
    by (simp add: process_char_token Let_def well_formed_stdout_update
        del: One_nat_def)
next
  case False
  from assms have "well_formed (s\<lparr>g_token := []\<rparr>)" by (simp add: well_formed_token_update)
  with False show ?thesis
    by (cases "g_delimiters s (tolower raw)")
      (simp_all add: process_char_delimiter process_char_other well_formed_stdout_update)
qed

lemma well_formed_process_units:
  "well_formed s \<Longrightarrow> well_formed (process_units ws s)"
  by (induction ws s rule: process_units.induct)
    (simp_all add: well_formed_clear well_formed_process_char)

lemma well_formed_process_key_event:
  assumes "well_formed s"
  shows "well_formed (process_key_event ev s)"
proof -
  have "well_formed (s\<lparr>g_token := butlast (g_token s)\<rparr>)"
    using assms by (intro well_formed_token_update) (auto simp add: well_formed_def registry_ok_def classifier_ok_def dest: in_set_butlastD)
  with assms show ?thesis
    by (simp add: process_key_event_def Let_def well_formed_clear well_formed_process_units
        well_formed_calls_update)
qed

lemma well_formed_fold_process_char:
  "well_formed s \<Longrightarrow> well_formed (fold process_char cs s)"
  by (induction cs arbitrary: s) (simp_all add: well_formed_process_char)

lemma default_delimiter_lower: "c \<in> set default_delimiters \<Longrightarrow> tolower c = c"
  by (auto simp add: default_delimiters_def tolower_def)

lemma modifier_bit: "(w :: 16 word) AND 0x8000 \<noteq> 0 \<longleftrightarrow> bit w 15"
  using and_exp_eq_0_iff_not_bit [of w 15] by simp

lemma is_modifier_down_iff:
  "is_modifier_down ev \<longleftrightarrow>
     bit (async_control ev) 15 \<or> bit (async_menu ev) 15 \<or> bit (async_lwin ev) 15 \<or> bit (async_rwin ev) 15"
  by (simp add: is_modifier_down_def modifier_bit)

subsection \<open>Registration\<close>

lemma copy_lower_eq:
  "length buf \<le> MAX_KEYWORD_LEN \<Longrightarrow>
   copy_lower xs buf = buf @ map tolower (take (MAX_KEYWORD_LEN - length buf) (cstr xs))"
proof (induction xs arbitrary: buf)
  case Nil
  then show ?case by simp
next
  case (Cons x xs)
  show ?case
  proof (cases "x \<noteq> NUL \<and> length buf < MAX_KEYWORD_LEN")
    case True
    then have "length buf < MAX_KEYWORD_LEN" by simp
    then have "MAX_KEYWORD_LEN - length buf = Suc (MAX_KEYWORD_LEN - length (buf @ [tolower x]))"
      by simp
    with True Cons.IH [of "buf @ [tolower x]"] show ?thesis
      by (simp add: cstr_def)
  next
    case False
    with Cons.prems show ?thesis by (auto simp add: cstr_def)
  qed
qed

lemma copy_lower_normalised: "copy_lower raw [] = normalised raw"
  by (simp add: copy_lower_eq normalised_def)

lemma append_keyword_Some:
  "append_keyword (Some raw) s =
     (if g_keyword_count s \<ge> MAX_KEYWORDS then (0, s)
      else if normalised raw = [] then (0, s)
      else if normalised raw \<in> set (g_keywords s) then (1, s)
      else (1, s\<lparr>g_keywords := g_keywords s @ [normalised raw],
                  g_max_keyword_len := max (g_max_keyword_len s) (length (normalised raw))\<rparr>))"
  by (simp add: append_keyword_def copy_lower_normalised Let_def keyword_scan_nonneg max_def)

lemma normalised_props:
  "length (normalised raw) \<le> MAX_KEYWORD_LEN" "NUL \<notin> set (normalised raw)"
  "map tolower (normalised raw) = normalised raw"
proof -
  show "length (normalised raw) \<le> MAX_KEYWORD_LEN" by (simp add: normalised_def)
  have "NUL \<notin> set (take MAX_KEYWORD_LEN (cstr raw))"
    using NUL_notin_cstr [of raw] by (auto dest: in_set_takeD)
  then show "NUL \<notin> set (normalised raw)" by (auto simp add: normalised_def)
  show "map tolower (normalised raw) = normalised raw" by (simp add: normalised_def)
qed

lemma normalised_id:
  assumes "length k \<le> MAX_KEYWORD_LEN" "NUL \<notin> set k" "map tolower k = k"
  shows "normalised k = k"
  using assms by (simp add: normalised_def cstr_id)

lemma Max_insert_length:
  "Max (insert 1 (length ` set (ks @ [k]))) = max (Max (insert 1 (length ` set ks))) (length k)"
proof -
  have "insert 1 (length ` set (ks @ [k])) = insert (length k) (insert 1 (length ` set ks))"
    by auto
  then show ?thesis by (simp add: max.commute)
qed

lemma registry_ok_store:
  assumes "registry_ok s" and "g_keyword_count s < MAX_KEYWORDS"
    and "k \<noteq> []" and "k \<notin> set (g_keywords s)" and "length k \<le> MAX_KEYWORD_LEN"
    and "NUL \<notin> set k" and "map tolower k = k"
  shows "registry_ok (s\<lparr>g_keywords := g_keywords s @ [k],
                         g_max_keyword_len := max (g_max_keyword_len s) (length k)\<rparr>)"
proof -
  from assms(1) have m: "g_max_keyword_len s = Max (insert 1 (length ` set (g_keywords s)))"
    and d: "distinct (g_keywords s)"
    and a: "\<forall>k \<in> set (g_keywords s).
        k \<noteq> [] \<and> length k \<le> MAX_KEYWORD_LEN \<and> NUL \<notin> set k \<and> map tolower k = k"
    by (simp_all add: registry_ok_def)
  have "max (g_max_keyword_len s) (length k) = Max (insert 1 (length ` set (g_keywords s @ [k])))"
    unfolding m by (rule Max_insert_length [symmetric])
  moreover have "distinct (g_keywords s @ [k])" using d assms(4) by simp
  moreover have "\<forall>k' \<in> set (g_keywords s @ [k]).
        k' \<noteq> [] \<and> length k' \<le> MAX_KEYWORD_LEN \<and> NUL \<notin> set k' \<and> map tolower k' = k'"
    using a assms(3,5,6,7) by simp
  moreover have "length (g_keywords s @ [k]) \<le> MAX_KEYWORDS" using assms(2) by simp
  ultimately show ?thesis
    unfolding registry_ok_def by simp
qed

lemma registry_ok_append_keyword:
  assumes "registry_ok s"
  shows "registry_ok (snd (append_keyword src s))"
proof (cases src)
  case None
  with assms show ?thesis by (simp add: append_keyword_def)
next
  case (Some raw)
  show ?thesis
  proof (cases "g_keyword_count s < MAX_KEYWORDS \<and> normalised raw \<noteq> [] \<and>
      normalised raw \<notin> set (g_keywords s)")
    case True
    then show ?thesis
      unfolding Some append_keyword_Some
      using registry_ok_store [OF assms, of "normalised raw"] normalised_props [of raw]
      by simp
  next
    case False
    then show ?thesis
      unfolding Some append_keyword_Some using assms by auto
  qed
qed

lemma append_keyword_None [simp]: "append_keyword None s = (0, s)"
  by (simp add: append_keyword_def)

lemma append_keyword_tables:
  "g_allowed (snd (append_keyword src s)) = g_allowed s"
  "g_delimiters (snd (append_keyword src s)) = g_delimiters s"
  "g_token (snd (append_keyword src s)) = g_token s"
  "stdout_lines (snd (append_keyword src s)) = stdout_lines s"
  "to_unicode_calls (snd (append_keyword src s)) = to_unicode_calls s"
  by (cases src; simp add: append_keyword_Some)+

text \<open>Whatever every registration keeps, the scanner keeps.\<close>

lemma parse_loop_invariant:
  assumes step: "\<And>cur s. P s \<Longrightarrow> P (snd (append_keyword (Some cur) s))"
  shows "P s \<Longrightarrow> P (parse_loop js i e cur s)"
proof (induction js arbitrary: i e cur s)
  case Nil
  then show ?case by simp
next
  case (Cons ch rest)
  consider (nul) "ch = NUL"
    | (outside) "ch \<noteq> NUL" "\<not> i"
    | (escaped) "ch \<noteq> NUL" "i" "e"
    | (backslash) "ch \<noteq> NUL" "i" "\<not> e" "ch = CHR 0x5C"
    | (closing) "ch \<noteq> NUL" "i" "\<not> e" "ch \<noteq> CHR 0x5C" "ch = CHR 0x22"
    | (plain) "ch \<noteq> NUL" "i" "\<not> e" "ch \<noteq> CHR 0x5C" "ch \<noteq> CHR 0x22"
    by blast
  then show ?case
  proof cases
    case nul
    with Cons.prems show ?thesis by simp
  next
    case outside
    then show ?thesis using Cons.IH [OF Cons.prems] by simp
  next
    case escaped
    then show ?thesis using Cons.IH [OF Cons.prems] by (simp add: Let_def)
  next
    case backslash
    then show ?thesis using Cons.IH [OF Cons.prems] by simp
  next
    case closing
    then show ?thesis using Cons.IH [OF step [OF Cons.prems]] by simp
  next
    case plain
    then show ?thesis using Cons.IH [OF Cons.prems] by simp
  qed
qed

lemma parse_loop_registry_ok:
  "registry_ok s \<Longrightarrow> registry_ok (parse_loop js i e cur s)"
  by (rule parse_loop_invariant) (rule registry_ok_append_keyword)

lemma parse_loop_tables:
  "g_allowed (parse_loop js i e cur s) = g_allowed s"
  "g_delimiters (parse_loop js i e cur s) = g_delimiters s"
  "g_token (parse_loop js i e cur s) = g_token s"
  "stdout_lines (parse_loop js i e cur s) = stdout_lines s"
  "to_unicode_calls (parse_loop js i e cur s) = to_unicode_calls s"
proof -
  show "g_allowed (parse_loop js i e cur s) = g_allowed s"
    by (rule parse_loop_invariant [where P = "\<lambda>t. g_allowed t = g_allowed s"])
      (simp_all add: append_keyword_tables)
  show "g_delimiters (parse_loop js i e cur s) = g_delimiters s"
    by (rule parse_loop_invariant [where P = "\<lambda>t. g_delimiters t = g_delimiters s"])
      (simp_all add: append_keyword_tables)
  show "g_token (parse_loop js i e cur s) = g_token s"
    by (rule parse_loop_invariant [where P = "\<lambda>t. g_token t = g_token s"])
      (simp_all add: append_keyword_tables)
  show "stdout_lines (parse_loop js i e cur s) = stdout_lines s"
    by (rule parse_loop_invariant [where P = "\<lambda>t. stdout_lines t = stdout_lines s"])
      (simp_all add: append_keyword_tables)
  show "to_unicode_calls (parse_loop js i e cur s) = to_unicode_calls s"
    by (rule parse_loop_invariant [where P = "\<lambda>t. to_unicode_calls t = to_unicode_calls s"])
      (simp_all add: append_keyword_tables)
qed

subsection \<open>The classifier tables\<close>

lemma fold_mark:
  "fold (\<lambda>n a. a(f n := True)) ns a c \<longleftrightarrow> a c \<or> c \<in> f ` set ns"
  by (induction ns arbitrary: a) auto

lemma char_of_range:
  assumes "b \<le> 256"
  shows "c \<in> char_of ` {a ..< b :: nat} \<longleftrightarrow> a \<le> of_char c \<and> (of_char c :: nat) < b"
proof
  assume "c \<in> char_of ` {a ..< b}"
  then obtain n where "a \<le> n" "n < b" "c = char_of n" by auto
  with assms show "a \<le> of_char c \<and> (of_char c :: nat) < b" by simp
next
  assume "a \<le> of_char c \<and> (of_char c :: nat) < b"
  then have "of_char c \<in> {a ..< b}" by simp
  then have "char_of (of_char c :: nat) \<in> char_of ` {a ..< b}" by (rule imageI)
  then show "c \<in> char_of ` {a ..< b}" by simp
qed

lemma cstr_default_delimiters: "cstr default_delimiters = default_delimiters"
  by (rule cstr_id) (simp add: default_delimiters_def)

lemma seed_allowed:
  "g_allowed (seed_charsets s) c \<longleftrightarrow>
     (97 \<le> (of_char c :: nat) \<and> (of_char c :: nat) < 123) \<or>
     (48 \<le> (of_char c :: nat) \<and> (of_char c :: nat) < 58) \<or> c = CHR ''-'' \<or> c = CHR ''_''"
  by (auto simp add: seed_charsets_def Let_def fold_mark char_of_range simp del: upt_rec_numeral)

lemma seed_delimiters:
  "g_delimiters (seed_charsets s) c \<longleftrightarrow> c \<in> set default_delimiters"
  using fold_mark [of "\<lambda>p. p" default_delimiters "\<lambda>c. False" c]
  by (simp add: seed_charsets_def Let_def cstr_default_delimiters)

lemma seed_other:
  "g_keywords (seed_charsets s) = g_keywords s"
  "g_max_keyword_len (seed_charsets s) = g_max_keyword_len s"
  "g_token (seed_charsets s) = g_token s"
  "stdout_lines (seed_charsets s) = stdout_lines s"
  "to_unicode_calls (seed_charsets s) = to_unicode_calls s"
  by (simp_all add: seed_charsets_def Let_def)

lemma seed_disjoint: "\<not> (g_allowed (seed_charsets s) c \<and> g_delimiters (seed_charsets s) c)"
  unfolding seed_allowed seed_delimiters
  by (auto simp add: default_delimiters_def)

lemma seed_NUL: "\<not> g_allowed (seed_charsets s) NUL"
  by (simp add: seed_allowed)


lemma cstr_Cons: "cstr (x # xs) = (if x = NUL then [] else x # cstr xs)"
  by (simp add: cstr_def)

lemma keyword_bytes_Nil [simp]: "keyword_bytes [] = {}"
  by (simp add: keyword_bytes_def)

lemma keyword_bytes_Cons: "keyword_bytes (k # ks) = keyword_bytes [k] \<union> keyword_bytes ks"
  by (auto simp add: keyword_bytes_def)

lemma keyword_bytes_single_Nil [simp]: "keyword_bytes [[]] = {}"
  by (simp add: keyword_bytes_def)

lemma keyword_bytes_single_Cons:
  "keyword_bytes [x # xs] =
     (if x = NUL then {}
      else if whitespace (tolower x) then keyword_bytes [xs]
      else insert (tolower x) (keyword_bytes [xs]))"
  by (auto simp add: keyword_bytes_def cstr_Cons)

lemma apply_chars_tables:
  "g_allowed (apply_chars k s) c \<longleftrightarrow> g_allowed s c \<or> c \<in> keyword_bytes [k]"
  "g_delimiters (apply_chars k s) c \<longleftrightarrow> g_delimiters s c \<and> c \<notin> keyword_bytes [k]"
proof (induction k arbitrary: s)
  case Nil
  { case 1 show ?case by simp }
  { case 2 show ?case by simp }
next
  case (Cons x xs)
  { case 1 show ?case
      using Cons.IH(1) by (auto simp add: keyword_bytes_single_Cons Let_def whitespace_def) }
  { case 2 show ?case
      using Cons.IH(2) by (auto simp add: keyword_bytes_single_Cons Let_def whitespace_def) }
qed

lemma apply_chars_other:
  "g_keywords (apply_chars k s) = g_keywords s"
  "g_max_keyword_len (apply_chars k s) = g_max_keyword_len s"
  "g_token (apply_chars k s) = g_token s"
  "stdout_lines (apply_chars k s) = stdout_lines s"
  "to_unicode_calls (apply_chars k s) = to_unicode_calls s"
  by (induction k arbitrary: s; simp add: Let_def)+

lemma fold_apply_chars_tables:
  "g_allowed (fold apply_chars ks s) c \<longleftrightarrow> g_allowed s c \<or> c \<in> keyword_bytes ks"
  "g_delimiters (fold apply_chars ks s) c \<longleftrightarrow> g_delimiters s c \<and> c \<notin> keyword_bytes ks"
proof (induction ks arbitrary: s)
  case Nil
  { case 1 show ?case by simp }
  { case 2 show ?case by simp }
next
  case (Cons k ks)
  { case 1 show ?case
      using Cons.IH(1) [of "apply_chars k s"] keyword_bytes_Cons [of k ks]
      by (auto simp add: apply_chars_tables) }
  { case 2 show ?case
      using Cons.IH(2) [of "apply_chars k s"] keyword_bytes_Cons [of k ks]
      by (auto simp add: apply_chars_tables) }
qed

lemma fold_apply_chars_other:
  "g_keywords (fold apply_chars ks s) = g_keywords s"
  "g_max_keyword_len (fold apply_chars ks s) = g_max_keyword_len s"
  "g_token (fold apply_chars ks s) = g_token s"
  "stdout_lines (fold apply_chars ks s) = stdout_lines s"
  "to_unicode_calls (fold apply_chars ks s) = to_unicode_calls s"
  by (induction ks arbitrary: s; simp add: apply_chars_other)+

lemma widen_tables:
  "g_allowed (apply_keyword_chars_to_charsets s) c \<longleftrightarrow>
     g_allowed s c \<or> c \<in> keyword_bytes (g_keywords s)"
  "g_delimiters (apply_keyword_chars_to_charsets s) c \<longleftrightarrow>
     g_delimiters s c \<and> c \<notin> keyword_bytes (g_keywords s)"
  by (simp_all add: apply_keyword_chars_to_charsets_def fold_apply_chars_tables)

lemma widen_other:
  "g_keywords (apply_keyword_chars_to_charsets s) = g_keywords s"
  "g_max_keyword_len (apply_keyword_chars_to_charsets s) = g_max_keyword_len s"
  "g_token (apply_keyword_chars_to_charsets s) = g_token s"
  "stdout_lines (apply_keyword_chars_to_charsets s) = stdout_lines s"
  "to_unicode_calls (apply_keyword_chars_to_charsets s) = to_unicode_calls s"
  by (simp_all add: apply_keyword_chars_to_charsets_def fold_apply_chars_other)

lemma NUL_notin_keyword_bytes: "NUL \<notin> keyword_bytes ks"
  using NUL_notin_cstr by (auto simp add: keyword_bytes_def)

lemma keyword_byte_widened:
  assumes "k \<in> set ks" and "NUL \<notin> set k" and "map tolower k = k"
    and "c \<in> set k" and "\<not> whitespace c"
  shows "c \<in> keyword_bytes ks"
proof -
  from assms(3,4) have "tolower c = c" by (rule map_fixed)
  with assms show ?thesis
    by (auto simp add: keyword_bytes_def cstr_id intro!: bexI [of _ k] bexI [of _ c])
qed


subsection \<open>The state the hook starts from\<close>

lemma registry_ok_initial: "registry_ok initial"
  by (simp add: registry_ok_def initial_def)

lemma registry_ok_cong:
  "g_keywords t = g_keywords s \<Longrightarrow> g_max_keyword_len t = g_max_keyword_len s \<Longrightarrow>
   registry_ok t = registry_ok s"
  by (simp add: registry_ok_def)

lemma snd_parse_keywords_json:
  "snd (parse_keywords_json (Some json) s) = parse_loop json False False [] s"
  by (simp add: parse_keywords_json_def Let_def)

lemma classifier_ok_widen:
  assumes "registry_ok s"
    and "\<And>c. \<not> (g_allowed s c \<and> g_delimiters s c)"
    and "\<not> g_allowed s NUL"
    and "\<And>c. g_delimiters s c \<Longrightarrow> c \<in> set default_delimiters"
  shows "classifier_ok (apply_keyword_chars_to_charsets s)"
proof -
  have "g_allowed (apply_keyword_chars_to_charsets s) c"
    if "k \<in> set (g_keywords s)" "c \<in> set k" "\<not> whitespace c" for k c
  proof -
    from assms(1) that(1) have "NUL \<notin> set k" "map tolower k = k"
      by (simp_all add: registry_ok_def)
    with that have "c \<in> keyword_bytes (g_keywords s)"
      by (intro keyword_byte_widened [of k])
    then show ?thesis by (simp add: widen_tables)
  qed
  moreover have "\<not> (g_allowed (apply_keyword_chars_to_charsets s) c \<and>
      g_delimiters (apply_keyword_chars_to_charsets s) c)" for c
    using assms(2) [of c] by (auto simp add: widen_tables)
  moreover have "\<not> g_allowed (apply_keyword_chars_to_charsets s) NUL"
    using assms(3) by (simp add: widen_tables NUL_notin_keyword_bytes)
  moreover have "c \<in> set default_delimiters"
    if "g_delimiters (apply_keyword_chars_to_charsets s) c" for c
    using that assms(4) [of c] by (simp add: widen_tables)
  ultimately show ?thesis
    unfolding classifier_ok_def widen_other by blast
qed

lemma well_formed_configured: "well_formed (configured json)"
proof -
  let ?s1 = "parse_loop json False False [] (seed_charsets initial)"
  have "registry_ok (seed_charsets initial)"
    using registry_ok_initial by (simp add: registry_ok_cong [of "seed_charsets initial" initial] seed_other)
  then have r: "registry_ok ?s1" by (rule parse_loop_registry_ok)
  have "classifier_ok (apply_keyword_chars_to_charsets ?s1)"
    using r
  proof (rule classifier_ok_widen)
    show "\<not> (g_allowed ?s1 c \<and> g_delimiters ?s1 c)" for c
      unfolding parse_loop_tables by (rule seed_disjoint)
    show "\<not> g_allowed ?s1 NUL"
      unfolding parse_loop_tables by (rule seed_NUL)
    show "c \<in> set default_delimiters" if "g_delimiters ?s1 c" for c
      using that unfolding parse_loop_tables by (simp add: seed_delimiters)
  qed
  moreover have "registry_ok (apply_keyword_chars_to_charsets ?s1)"
    using r by (simp add: registry_ok_cong [of "apply_keyword_chars_to_charsets ?s1" ?s1] widen_other)
  moreover have "g_token (apply_keyword_chars_to_charsets ?s1) = []"
    by (simp add: widen_other parse_loop_tables seed_other initial_def)
  ultimately show ?thesis
    by (simp add: well_formed_def configured_def snd_parse_keywords_json)
qed

lemma configured_token: "g_token (configured json) = []"
  by (simp add: configured_def snd_parse_keywords_json widen_other parse_loop_tables seed_other
      initial_def)

lemma configured_stdout: "stdout_lines (configured json) = []"
  by (simp add: configured_def snd_parse_keywords_json widen_other parse_loop_tables seed_other
      initial_def)

subsection \<open>Filling the registry\<close>

lemma register_all_Nil [simp]: "register_all [] s = s"
  by (simp add: register_all_def)

lemma register_all_Cons [simp]:
  "register_all (src # srcs) s = register_all srcs (snd (append_keyword src s))"
  by (simp add: register_all_def)

lemma count_append_keyword:
  "g_keyword_count s \<le> MAX_KEYWORDS \<Longrightarrow> g_keyword_count (snd (append_keyword src s)) \<le> MAX_KEYWORDS"
  by (cases src) (simp_all add: append_keyword_Some)

lemma count_register_all:
  "g_keyword_count s \<le> MAX_KEYWORDS \<Longrightarrow> g_keyword_count (register_all srcs s) \<le> MAX_KEYWORDS"
  by (induction srcs arbitrary: s) (simp_all add: count_append_keyword)

lemma register_all_fresh:
  assumes "\<forall>k \<in> set ks. normalised k = k \<and> k \<noteq> []"
    and "distinct (g_keywords s @ ks)"
    and "length (g_keywords s @ ks) \<le> MAX_KEYWORDS"
  shows "g_keywords (register_all (map Some ks) s) = g_keywords s @ ks"
  using assms
proof (induction ks arbitrary: s)
  case Nil
  then show ?case by simp
next
  case (Cons k ks)
  let ?s1 = "snd (append_keyword (Some k) s)"
  from Cons.prems have k: "normalised k = k" "k \<noteq> []" "k \<notin> set (g_keywords s)"
    and c: "g_keyword_count s < MAX_KEYWORDS"
    by simp_all
  then have s1: "g_keywords ?s1 = g_keywords s @ [k]"
    by (simp add: append_keyword_Some)
  have "g_keywords (register_all (map Some ks) ?s1) = g_keywords ?s1 @ ks"
    using Cons.prems by (intro Cons.IH) (simp_all add: s1)
  then show ?case by (simp add: s1)
qed

lemma numbered_keyword_normalised:
  "normalised (numbered_keyword i) = numbered_keyword i" "numbered_keyword i \<noteq> []"
proof -
  have "tolower (char_of (97 + n)) = char_of (97 + n)" if "n < 26" for n :: nat
    using that by (intro tolower_other) simp
  then have "map tolower (numbered_keyword i) = numbered_keyword i"
    by (simp add: numbered_keyword_def)
  moreover have "NUL \<notin> set (numbered_keyword i)"
  proof -
    have "NUL \<noteq> char_of (97 + n)" if "n < 26" for n :: nat
      using that by (subst char_eq_nat_iff) simp
    then show ?thesis by (simp add: numbered_keyword_def)
  qed
  ultimately show "normalised (numbered_keyword i) = numbered_keyword i"
    by (intro normalised_id) (simp_all add: numbered_keyword_def)
  show "numbered_keyword i \<noteq> []" by (simp add: numbered_keyword_def)
qed

lemma numbered_keyword_inj: "inj_on numbered_keyword {0 ..< 676}"
proof (rule inj_onI)
  fix i j :: nat
  assume i: "i \<in> {0 ..< 676}" and j: "j \<in> {0 ..< 676}"
    and eq: "numbered_keyword i = numbered_keyword j"
  from eq have "(97 + i mod 26) mod 256 = (97 + j mod 26) mod 256"
    and "(97 + i div 26 mod 26) mod 256 = (97 + j div 26 mod 26) mod 256"
    by (simp_all add: numbered_keyword_def)
  then have "i mod 26 = j mod 26" and "i div 26 mod 26 = j div 26 mod 26"
    by (simp_all add: mod_less)
  moreover from i j have "i div 26 < 26" "j div 26 < 26" by auto
  ultimately have "i mod 26 = j mod 26" "i div 26 = j div 26" by simp_all
  then show "i = j" by (metis div_mult_mod_eq)
qed

lemma filled_keywords:
  assumes "n \<le> MAX_KEYWORDS"
  shows "g_keywords (filled n) = map numbered_keyword [0 ..< n]"
proof -
  have "inj_on numbered_keyword {0 ..< n}"
    using assms by (intro inj_on_subset [OF numbered_keyword_inj]) auto
  then have "distinct (map numbered_keyword [0 ..< n])"
    by (simp add: distinct_map)
  then have "g_keywords (register_all (map Some (map numbered_keyword [0 ..< n])) initial)
      = g_keywords initial @ map numbered_keyword [0 ..< n]"
    using assms by (intro register_all_fresh) (auto simp add: numbered_keyword_normalised initial_def)
  then show ?thesis by (simp add: filled_def initial_def comp_def)
qed


lemma filled_count: "n \<le> MAX_KEYWORDS \<Longrightarrow> g_keyword_count (filled n) = n"
  by (simp add: filled_keywords)

lemma short_not_numbered: "length k \<noteq> 2 \<Longrightarrow> k \<notin> set (g_keywords (filled 511))"
  by (auto simp add: filled_keywords numbered_keyword_def)

lemma append_keyword_twice:
  "snd (append_keyword src (snd (append_keyword src s))) = snd (append_keyword src s)"
  by (cases src) (simp_all add: append_keyword_Some)

subsection \<open>What the message loop prints\<close>

lemma errors_process_char:
  "filter is_error (stdout_lines (process_char c s)) = filter is_error (stdout_lines s)"
  by (simp add: process_char_def Let_def clear_token_def emit_keyword_def trim_token_to_max_def)

lemma errors_process_units:
  "filter is_error (stdout_lines (process_units ws s)) = filter is_error (stdout_lines s)"
  by (induction ws s rule: process_units.induct)
    (simp_all add: errors_process_char clear_token_def)

lemma errors_process_key_event:
  "filter is_error (stdout_lines (process_key_event ev s)) = filter is_error (stdout_lines s)"
  by (simp add: process_key_event_def Let_def clear_token_def errors_process_units)

lemma errors_keyboard_hook:
  "filter is_error (stdout_lines (keyboard_hook h s)) = filter is_error (stdout_lines s)"
  by (simp add: keyboard_hook_def errors_process_key_event)

lemma errors_hook_calls:
  "filter is_error (stdout_lines (fold keyboard_hook hs s)) = filter is_error (stdout_lines s)"
  by (induction hs arbitrary: s) (simp_all add: errors_keyboard_hook)

lemma errors_message_loop:
  "filter is_error (stdout_lines (fst (message_loop msgs s))) = filter is_error (stdout_lines s)"
  by (induction msgs arbitrary: s) (simp_all add: Let_def errors_hook_calls)

lemma grows_process_char:
  "\<exists>out. stdout_lines (process_char c s) = stdout_lines s @ out"
  by (simp add: process_char_def Let_def clear_token_def emit_keyword_def trim_token_to_max_def)

lemma grows_process_units:
  "\<exists>out. stdout_lines (process_units ws s) = stdout_lines s @ out"
proof (induction ws s rule: process_units.induct)
  case (1 s)
  show ?case by simp
next
  case (2 wc rest s)
  show ?case
  proof (cases "wc \<le> 0 \<or> wc > 127")
    case True
    with "2.IH"(1) show ?thesis by (simp add: clear_token_def)
  next
    case False
    from False "2.IH"(2) obtain out where
      "stdout_lines (process_units rest (process_char (char_of (unat wc)) s))
        = stdout_lines (process_char (char_of (unat wc)) s) @ out" by blast
    moreover obtain out' where
      "stdout_lines (process_char (char_of (unat wc)) s) = stdout_lines s @ out'"
      using grows_process_char by blast
    ultimately show ?thesis using False by simp
  qed
qed

lemma grows_keyboard_hook:
  "\<exists>out. stdout_lines (keyboard_hook h s) = stdout_lines s @ out"
  using grows_process_units [of "take (nat (to_unicode_rc (kb h))) (to_unicode_wbuf (kb h))"
      "s\<lparr>to_unicode_calls := to_unicode_calls s + 1\<rparr>"]
  by (simp add: keyboard_hook_def process_key_event_def Let_def clear_token_def)

lemma grows_hook_calls:
  "\<exists>out. stdout_lines (fold keyboard_hook hs s) = stdout_lines s @ out"
proof (induction hs arbitrary: s)
  case Nil
  show ?case by simp
next
  case (Cons h hs)
  obtain a where "stdout_lines (keyboard_hook h s) = stdout_lines s @ a"
    using grows_keyboard_hook by blast
  moreover obtain b where
    "stdout_lines (fold keyboard_hook hs (keyboard_hook h s)) = stdout_lines (keyboard_hook h s) @ b"
    using Cons.IH by blast
  ultimately show ?case by simp
qed

lemma grows_message_loop:
  "\<exists>out. stdout_lines (fst (message_loop msgs s)) = stdout_lines s @ out"
proof (induction msgs arbitrary: s)
  case Nil
  show ?case by simp
next
  case (Cons m msgs)
  obtain a where a: "stdout_lines (fold keyboard_hook (hook_calls m) s) = stdout_lines s @ a"
    using grows_hook_calls by blast
  obtain b where
    "stdout_lines (fst (message_loop msgs (fold keyboard_hook (hook_calls m) s)))
      = stdout_lines (fold keyboard_hook (hook_calls m) s) @ b"
    using Cons.IH by blast
  with a show ?case by (simp add: Let_def)
qed

lemma message_loop_ended:
  "snd (message_loop msgs s) \<longleftrightarrow> (\<exists>m \<in> set msgs. result m \<le> 0)"
  by (induction msgs arbitrary: s) (auto simp add: Let_def)

lemma parse_count:
  "fst (parse_keywords_json (Some json) s) = 0 \<longleftrightarrow>
     g_keyword_count (snd (parse_keywords_json (Some json) s)) = 0"
  by (simp add: parse_keywords_json_def Let_def)

lemma startup_stdout:
  "stdout_lines (snd (parse_keywords_json (Some json) (seed_charsets initial))) = []"
  "stdout_lines (apply_keyword_chars_to_charsets
     (snd (parse_keywords_json (Some json) (seed_charsets initial)))) = []"
  by (simp_all add: snd_parse_keywords_json widen_other parse_loop_tables seed_other initial_def)

subsection \<open>Runs of the engine\<close>

lemma process_char_frame:
  "g_keywords (process_char c s) = g_keywords s"
  "g_max_keyword_len (process_char c s) = g_max_keyword_len s"
  "g_allowed (process_char c s) = g_allowed s"
  "g_delimiters (process_char c s) = g_delimiters s"
  by (simp_all add: process_char_def Let_def clear_token_def emit_keyword_def trim_token_to_max_def)

lemma fold_process_char_frame:
  "g_keywords (fold process_char cs s) = g_keywords s"
  "g_max_keyword_len (fold process_char cs s) = g_max_keyword_len s"
  "g_allowed (fold process_char cs s) = g_allowed s"
  "g_delimiters (fold process_char cs s) = g_delimiters s"
  by (induction cs arbitrary: s; simp add: process_char_frame)+

lemma well_formed_keyword:
  assumes "well_formed s" and "k \<in> set (g_keywords s)"
  shows "k \<noteq> []" and "NUL \<notin> set k" and "map tolower k = k"
    and "length k \<le> g_max_keyword_len s"
proof -
  from assms show "k \<noteq> []" "NUL \<notin> set k" "map tolower k = k"
    by (simp_all add: well_formed_def registry_ok_def)
  from assms have "g_max_keyword_len s = Max (insert 1 (length ` set (g_keywords s)))"
    by (simp add: well_formed_def registry_ok_def)
  with assms(2) show "length k \<le> g_max_keyword_len s"
    by (simp add: Max_keyword_len_ge del: Max_insert)
qed

lemma empty_not_keyword: "well_formed s \<Longrightarrow> [] \<notin> set (g_keywords s)"
  using well_formed_keyword(1) by blast

text \<open>A token character, in a state the program can be in.\<close>

lemma token_step:
  assumes "well_formed s" and "g_allowed s (tolower c)"
  shows "process_char c s =
     (let w = most_recent (g_max_keyword_len s) (g_token s @ [tolower c]) in
      if w \<in> set (g_keywords s)
      then s\<lparr>g_token := [], stdout_lines := stdout_lines s @ [KeywordMatch w NUL]\<rparr>
      else s\<lparr>g_token := w\<rparr>)"
proof -
  let ?w = "most_recent (g_max_keyword_len s) (g_token s @ [tolower c])"
  from assms(1) have n: "NUL \<notin> set (g_token s)" and a: "\<not> g_allowed s NUL"
    by (simp_all add: well_formed_def classifier_ok_def)
  from a assms(2) have "tolower c \<noteq> NUL" by (cases "tolower c = NUL") simp_all
  with n have "NUL \<notin> set (g_token s @ [tolower c])" by simp
  moreover have "set ?w \<subseteq> set (g_token s @ [tolower c])" by (rule set_most_recent)
  ultimately have "NUL \<notin> set ?w" by (rule contra_subsetD [rotated])
  then have c: "cstr ?w = ?w" by (rule cstr_id)
  have step: "process_char c s =
      (if cstr ?w \<noteq> [] \<and> cstr ?w \<in> set (g_keywords s)
       then s\<lparr>g_token := [], stdout_lines := stdout_lines s @ [KeywordMatch (cstr ?w) NUL]\<rparr>
       else s\<lparr>g_token := ?w\<rparr>)"
    using process_char_token [OF assms(2) well_formed_max(3) [OF assms(1)]]
    by (simp only: Let_def)
  show ?thesis
  proof (cases "?w \<in> set (g_keywords s)")
    case True
    with empty_not_keyword [OF assms(1)] have "?w \<noteq> []" by (cases "?w = []") simp_all
    with True show ?thesis unfolding step c Let_def by simp
  next
    case False
    then show ?thesis unfolding step c Let_def by simp
  qed
qed

text \<open>Any other character, when the buffer is not a keyword.\<close>

lemma break_step:
  assumes "\<not> g_allowed s (tolower c)" and "g_token s = [] \<or> cstr (g_token s) \<notin> set (g_keywords s)"
  shows "process_char c s = s\<lparr>g_token := []\<rparr>"
  using assms
  by (cases "g_delimiters s (tolower c)")
    (auto simp add: process_char_delimiter process_char_other)

lemma run_since_reset_snoc:
  "run_since_reset K tok mx (cs @ [c]) =
     (if \<not> tok (tolower c) then []
      else if most_recent mx (run_since_reset K tok mx cs) \<in> set K then [tolower c]
      else run_since_reset K tok mx cs @ [tolower c])"
  by (simp add: run_since_reset_def)

lemma most_recent_Nil: "most_recent n [] = []"
  by (simp add: most_recent_def)

text \<open>The buffer is the window over the run, emptied when the window is a keyword.\<close>

lemma engine_follows_run:
  assumes "well_formed s" and "g_token s = []"
  shows "g_token (fold process_char cs s) =
      (let w = most_recent (g_max_keyword_len s) (run_since_reset (g_keywords s) (g_allowed s) (g_max_keyword_len s) cs)
       in if w \<in> set (g_keywords s) then [] else w)"
proof (induction cs rule: rev_induct)
  case Nil
  then show ?case using assms by (simp add: run_since_reset_def Let_def most_recent_Nil)
next
  case (snoc c cs)
  let ?K = "g_keywords s" and ?tok = "g_allowed s" and ?mx = "g_max_keyword_len s"
  let ?st = "fold process_char cs s"
  let ?r = "run_since_reset ?K ?tok ?mx cs"
  have wf: "well_formed ?st" using assms(1) by (rule well_formed_fold_process_char)
  have fr: "g_keywords ?st = ?K" "g_allowed ?st = ?tok" "g_max_keyword_len ?st = ?mx"
    by (simp_all add: fold_process_char_frame)
  have tk: "g_token ?st = (if most_recent ?mx ?r \<in> set ?K then [] else most_recent ?mx ?r)"
    using snoc.IH by (simp add: Let_def)
  show ?case
  proof (cases "?tok (tolower c)")
    case False
    have "g_token ?st \<notin> set ?K"
      using tk empty_not_keyword [OF assms(1)] by (simp split: if_splits)
    moreover have "cstr (g_token ?st) = g_token ?st"
      using wf by (simp add: well_formed_def cstr_id)
    ultimately have "process_char c ?st = ?st\<lparr>g_token := []\<rparr>"
      using False by (intro break_step) (simp_all add: fr)
    then show ?thesis
      using False empty_not_keyword [OF assms(1)] by (simp add: run_since_reset_snoc Let_def most_recent_Nil)
  next
    case True
    have w: "most_recent ?mx (g_token ?st @ [tolower c]) = most_recent ?mx (run_since_reset ?K ?tok ?mx (cs @ [c]))"
      using True by (simp add: tk run_since_reset_snoc most_recent_snoc)
    have "process_char c ?st =
       (let w = most_recent ?mx (g_token ?st @ [tolower c]) in
        if w \<in> set ?K
        then ?st\<lparr>g_token := [], stdout_lines := stdout_lines ?st @ [KeywordMatch w NUL]\<rparr>
        else ?st\<lparr>g_token := w\<rparr>)"
      using token_step [OF wf] True by (simp add: fr)
    then show ?thesis
      unfolding w by (simp add: Let_def)
  qed
qed


subsection \<open>Typing a keyword\<close>

lemma keyword_chars:
  assumes "well_formed s" and "k \<in> set (g_keywords s)" and "\<forall>c \<in> set k. \<not> whitespace c"
  shows "\<forall>c \<in> set k. g_allowed s c \<and> tolower c = c"
proof
  fix c assume c: "c \<in> set k"
  from assms(1,2) have "\<forall>c \<in> set k. \<not> whitespace c \<longrightarrow> g_allowed s c"
    by (simp add: well_formed_def classifier_ok_def)
  with c assms(3) have "g_allowed s c" by blast
  moreover from well_formed_keyword(3) [OF assms(1,2)] c have "tolower c = c"
    by (rule map_fixed)
  ultimately show "g_allowed s c \<and> tolower c = c" ..
qed

lemma feed_clean:
  assumes "well_formed s"
    and "\<forall>c \<in> set p. g_allowed s c \<and> tolower c = c"
    and "length (g_token s @ p) \<le> g_max_keyword_len s"
    and "\<forall>n. g_token_len s < n \<and> n \<le> length (g_token s @ p)
           \<longrightarrow> take n (g_token s @ p) \<notin> set (g_keywords s)"
  shows "fold process_char p s = s\<lparr>g_token := g_token s @ p\<rparr>"
  using assms
proof (induction p arbitrary: s)
  case Nil
  then show ?case by simp
next
  case (Cons c p)
  let ?s1 = "s\<lparr>g_token := g_token s @ [c]\<rparr>"
  from Cons.prems(2) have a: "g_allowed s (tolower c)" and l: "tolower c = c" by simp_all
  from Cons.prems(3) have "length (g_token s @ [c]) \<le> g_max_keyword_len s" by simp
  then have w: "most_recent (g_max_keyword_len s) (g_token s @ [c]) = g_token s @ [c]"
    by (rule most_recent_all)
  from Cons.prems(4) have "g_token_len s < Suc (g_token_len s) \<and>
      Suc (g_token_len s) \<le> length (g_token s @ c # p)
      \<longrightarrow> take (Suc (g_token_len s)) (g_token s @ c # p) \<notin> set (g_keywords s)"
    by (rule spec)
  then have "take (Suc (g_token_len s)) (g_token s @ c # p) \<notin> set (g_keywords s)"
    by simp
  then have nk: "g_token s @ [c] \<notin> set (g_keywords s)" by simp
  have step: "process_char c s = ?s1"
    using token_step [OF Cons.prems(1) a] nk by (simp add: Let_def l w)
  have wf1: "well_formed ?s1"
    using well_formed_process_char [OF Cons.prems(1), of c] by (simp only: step)
  have "fold process_char p ?s1 = ?s1\<lparr>g_token := g_token ?s1 @ p\<rparr>"
  proof (rule Cons.IH [OF wf1])
    show "\<forall>c \<in> set p. g_allowed ?s1 c \<and> tolower c = c" using Cons.prems(2) by simp
    show "length (g_token ?s1 @ p) \<le> g_max_keyword_len ?s1" using Cons.prems(3) by simp
    show "\<forall>n. g_token_len ?s1 < n \<and> n \<le> length (g_token ?s1 @ p)
        \<longrightarrow> take n (g_token ?s1 @ p) \<notin> set (g_keywords ?s1)"
      using Cons.prems(4) by simp
  qed
  then show ?case by (simp add: step)
qed

lemma type_keyword:
  assumes "well_formed s" and "g_token s = []" and "k \<in> set (g_keywords s)"
    and "\<forall>c \<in> set k. \<not> whitespace c"
    and "\<forall>n. 0 < n \<and> n < length k \<longrightarrow> take n k \<notin> set (g_keywords s)"
  shows "fold process_char k s = s\<lparr>stdout_lines := stdout_lines s @ [KeywordMatch k NUL]\<rparr>"
proof -
  let ?p = "butlast k" and ?c = "last k"
  from well_formed_keyword [OF assms(1,3)] have ne: "k \<noteq> []"
    and len: "length k \<le> g_max_keyword_len s" by simp_all
  then have k: "k = ?p @ [?c]" by simp
  have ch: "\<forall>c \<in> set k. g_allowed s c \<and> tolower c = c"
    using assms(1,3,4) by (rule keyword_chars)
  have "fold process_char ?p s = s\<lparr>g_token := g_token s @ ?p\<rparr>"
  proof (rule feed_clean [OF assms(1)])
    show "\<forall>c \<in> set ?p. g_allowed s c \<and> tolower c = c"
      using ch by (auto dest: in_set_butlastD)
    show "length (g_token s @ ?p) \<le> g_max_keyword_len s"
      using len by (simp add: assms(2))
    show "\<forall>n. g_token_len s < n \<and> n \<le> length (g_token s @ ?p)
        \<longrightarrow> take n (g_token s @ ?p) \<notin> set (g_keywords s)"
    proof (intro allI impI)
      fix n assume "g_token_len s < n \<and> n \<le> length (g_token s @ ?p)"
      then have "0 < n" "n \<le> length k - 1" by (simp_all add: assms(2))
      moreover from ne have "length k \<noteq> 0" by simp
      ultimately have n: "0 < n" "n < length k" by arith+
      then have "take n ?p = take n k" by (simp add: take_butlast)
      with n assms(5) show "take n (g_token s @ ?p) \<notin> set (g_keywords s)"
        by (simp add: assms(2))
    qed
  qed
  then have p: "fold process_char ?p s = s\<lparr>g_token := ?p\<rparr>" by (simp add: assms(2))
  have wf: "well_formed (s\<lparr>g_token := ?p\<rparr>)"
    using well_formed_fold_process_char [OF assms(1), of ?p] by (simp only: p)
  have a: "g_allowed (s\<lparr>g_token := ?p\<rparr>) (tolower ?c)" using ch ne by simp
  have l: "tolower ?c = ?c" using ch ne by simp
  have w: "most_recent (g_max_keyword_len s) (?p @ [?c]) = k"
    using len k most_recent_all [of k "g_max_keyword_len s"] by simp
  have "process_char ?c (s\<lparr>g_token := ?p\<rparr>)
      = s\<lparr>g_token := [], stdout_lines := stdout_lines s @ [KeywordMatch k NUL]\<rparr>"
    using token_step [OF wf a] assms(3) by (simp add: Let_def l w)
  moreover have "s\<lparr>g_token := []\<rparr> = s" using assms(2) by (cases s) simp
  moreover have "fold process_char k s = process_char ?c (fold process_char ?p s)"
    by (subst k) simp
  ultimately show ?thesis by (simp add: p)
qed


subsection \<open>Bounds on what a run prints\<close>

lemma step_cases:
  assumes "well_formed s"
  obtains (matched) w where "g_allowed s (tolower c)"
      "w = most_recent (g_max_keyword_len s) (g_token s @ [tolower c])" "w \<in> set (g_keywords s)"
      "process_char c s = s\<lparr>g_token := [], stdout_lines := stdout_lines s @ [KeywordMatch w NUL]\<rparr>"
    | (kept) w where "g_allowed s (tolower c)"
      "w = most_recent (g_max_keyword_len s) (g_token s @ [tolower c])" "w \<notin> set (g_keywords s)"
      "process_char c s = s\<lparr>g_token := w\<rparr>"
    | (confirmed) "\<not> g_allowed s (tolower c)" "g_token s \<in> set (g_keywords s)"
      "process_char c s =
         s\<lparr>g_token := [], stdout_lines := stdout_lines s @ [KeywordMatch (g_token s) (tolower c)]\<rparr>"
    | (cleared) "\<not> g_allowed s (tolower c)" "process_char c s = s\<lparr>g_token := []\<rparr>"
proof (cases "g_allowed s (tolower c)")
  case True
  let ?w = "most_recent (g_max_keyword_len s) (g_token s @ [tolower c])"
  show ?thesis
  proof (cases "?w \<in> set (g_keywords s)")
    case in_K: True
    with token_step [OF assms True] have
      "process_char c s = s\<lparr>g_token := [], stdout_lines := stdout_lines s @ [KeywordMatch ?w NUL]\<rparr>"
      by (simp add: Let_def)
    with True in_K show ?thesis by (intro matched [of ?w]) simp_all
  next
    case not_K: False
    with token_step [OF assms True] have "process_char c s = s\<lparr>g_token := ?w\<rparr>"
      by (simp add: Let_def)
    with True not_K show ?thesis by (intro kept [of ?w]) simp_all
  qed
next
  case False
  from assms have cs: "cstr (g_token s) = g_token s" by (simp add: well_formed_def cstr_id)
  show ?thesis
  proof (cases "g_delimiters s (tolower c) \<and> g_token s \<noteq> [] \<and> g_token s \<in> set (g_keywords s)")
    case True
    with False have "process_char c s =
        s\<lparr>g_token := [], stdout_lines := stdout_lines s @ [KeywordMatch (g_token s) (tolower c)]\<rparr>"
      by (simp add: process_char_delimiter cs)
    with False True show ?thesis by (intro confirmed) simp_all
  next
    case no: False
    have "process_char c s = s\<lparr>g_token := []\<rparr>"
    proof (cases "g_delimiters s (tolower c)")
      case True
      with False no show ?thesis by (auto simp add: process_char_delimiter cs)
    next
      case other: False
      with False show ?thesis by (simp add: process_char_other)
    qed
    with False show ?thesis by (intro cleared) simp_all
  qed
qed

lemma step_bounds:
  assumes "well_formed s"
  shows "g_token_len (process_char c s) \<le> Suc (g_token_len s) \<and>
     (\<exists>out. stdout_lines (process_char c s) = stdout_lines s @ out \<and>
        (\<forall>k d. KeywordMatch k d \<in> set out \<longrightarrow> length k \<le> Suc (g_token_len s)))"
  using assms
proof (cases rule: step_cases [where c = c])
  case (matched w)
  then have "length w \<le> Suc (g_token_len s)" by (simp add: length_most_recent)
  with matched(4) show ?thesis by simp
next
  case (kept w)
  then have "length w \<le> Suc (g_token_len s)" by (simp add: length_most_recent)
  with kept(4) show ?thesis by simp
next
  case confirmed
  then show ?thesis by simp
next
  case cleared
  then show ?thesis by simp
qed

lemma run_bounds:
  assumes "well_formed s"
  shows "g_token_len (fold process_char cs s) \<le> g_token_len s + length cs \<and>
     (\<exists>out. stdout_lines (fold process_char cs s) = stdout_lines s @ out \<and>
        (\<forall>k d. KeywordMatch k d \<in> set out \<longrightarrow> length k \<le> g_token_len s + length cs))"
  using assms
proof (induction cs arbitrary: s)
  case Nil
  then show ?case by simp
next
  case (Cons c cs)
  let ?s1 = "process_char c s"
  have wf1: "well_formed ?s1" using Cons.prems by (rule well_formed_process_char)
  from step_bounds [OF Cons.prems, of c] obtain a where
    l1: "g_token_len ?s1 \<le> Suc (g_token_len s)" and
    a: "stdout_lines ?s1 = stdout_lines s @ a" and
    ka: "\<forall>k d. KeywordMatch k d \<in> set a \<longrightarrow> length k \<le> Suc (g_token_len s)"
    by blast
  from Cons.IH [OF wf1] obtain b where
    l2: "g_token_len (fold process_char cs ?s1) \<le> g_token_len ?s1 + length cs" and
    b: "stdout_lines (fold process_char cs ?s1) = stdout_lines ?s1 @ b" and
    kb: "\<forall>k d. KeywordMatch k d \<in> set b \<longrightarrow> length k \<le> g_token_len ?s1 + length cs"
    by blast
  have "stdout_lines (fold process_char (c # cs) s) = stdout_lines s @ (a @ b)"
    by (simp add: a b)
  moreover have "\<forall>k d. KeywordMatch k d \<in> set (a @ b) \<longrightarrow> length k \<le> g_token_len s + length (c # cs)"
  proof (intro allI impI)
    fix k d assume "KeywordMatch k d \<in> set (a @ b)"
    then consider "KeywordMatch k d \<in> set a" | "KeywordMatch k d \<in> set b" by auto
    then show "length k \<le> g_token_len s + length (c # cs)"
    proof cases
      case 1
      with ka have "length k \<le> Suc (g_token_len s)" by blast
      then show ?thesis by simp
    next
      case 2
      with kb have "length k \<le> g_token_len ?s1 + length cs" by blast
      with l1 show ?thesis by simp
    qed
  qed
  moreover have "g_token_len (fold process_char (c # cs) s) \<le> g_token_len s + length (c # cs)"
    using l1 l2 by simp
  ultimately show ?case by blast
qed

lemma step_not_keyword:
  assumes "well_formed s"
  shows "g_token (process_char c s) \<notin> set (g_keywords s)"
  using assms
proof (cases rule: step_cases [where c = c])
  case (kept w)
  then show ?thesis by simp
qed (simp_all add: empty_not_keyword [OF assms])

lemma step_full_growth:
  assumes "well_formed s" and "g_token_len (process_char c s) = Suc (g_token_len s)"
  shows "g_token (process_char c s) = g_token s @ [tolower c]"
  using assms(1)
proof (cases rule: step_cases [where c = c])
  case (kept w)
  with assms(2) have "length w = Suc (g_token_len s)" by simp
  with kept(2) have "length (g_token s @ [tolower c]) \<le> g_max_keyword_len s"
    by (simp add: length_most_recent)
  then have "w = g_token s @ [tolower c]" unfolding kept(2) by (rule most_recent_all)
  with kept(4) show ?thesis by simp
qed (use assms(2) in simp_all)

lemma run_full_growth:
  assumes "well_formed s"
    and "g_token_len (fold process_char p s) = g_token_len s + length p"
  shows "g_token (fold process_char p s) = g_token s @ map tolower p"
  using assms
proof (induction p arbitrary: s)
  case Nil
  then show ?case by simp
next
  case (Cons c p)
  let ?s1 = "process_char c s"
  have wf1: "well_formed ?s1" using Cons.prems(1) by (rule well_formed_process_char)
  from step_bounds [OF Cons.prems(1), of c] have l1: "g_token_len ?s1 \<le> Suc (g_token_len s)"
    by blast
  from run_bounds [OF wf1, of p] have l2:
    "g_token_len (fold process_char p ?s1) \<le> g_token_len ?s1 + length p" by blast
  from Cons.prems(2) have e: "g_token_len (fold process_char p ?s1) = g_token_len s + Suc (length p)"
    by simp
  from l1 l2 e have 1: "g_token_len ?s1 = Suc (g_token_len s)"
    and 2: "g_token_len (fold process_char p ?s1) = g_token_len ?s1 + length p"
    by simp_all
  from step_full_growth [OF Cons.prems(1) 1] have "g_token ?s1 = g_token s @ [tolower c]" .
  moreover from Cons.IH [OF wf1 2]
  have "g_token (fold process_char p ?s1) = g_token ?s1 @ map tolower p" .
  ultimately show ?case by simp
qed


section \<open>The claims\<close>

text \<open>
  C3. After a token character is processed the token buffer holds at most
  \<open>g_max_keyword_len\<close> bytes; and when the appended buffer is longer than that, trimming keeps
  exactly its most recent \<open>g_max_keyword_len\<close> bytes, which are the candidate that is looked up:
  the buffer is left as that candidate, or is emptied when the candidate is a keyword and
  the match is printed. The bound on the length of the buffer excludes only a full buffer of
  \<open>MAX_TOKEN_LEN\<close> bytes, which the program never has (\<open>well_formed_max\<close>).
\<close>

theorem token_buffer_window:
  assumes "g_allowed s (tolower raw)" and "g_token_len s < MAX_TOKEN_LEN"
  shows "g_token_len (process_char raw s) \<le> g_max_keyword_len s \<and>
    (g_max_keyword_len s < length (g_token s @ [tolower raw]) \<longrightarrow>
       (let kept = g_token (trim_token_to_max (s\<lparr>g_token := g_token s @ [tolower raw]\<rparr>)) in
          kept = most_recent (g_max_keyword_len s) (g_token s @ [tolower raw]) \<and>
          length kept = g_max_keyword_len s \<and>
          (g_token (process_char raw s) = kept \<or>
           g_token (process_char raw s) = [] \<and>
           stdout_lines (process_char raw s) = stdout_lines s @ [KeywordMatch (cstr kept) NUL])))"
proof -
  let ?w = "most_recent (g_max_keyword_len s) (g_token s @ [tolower raw])"
  have len: "length ?w = min (g_max_keyword_len s) (Suc (g_token_len s))"
    by (simp add: length_most_recent)
  have step: "process_char raw s =
      (if cstr ?w \<noteq> [] \<and> cstr ?w \<in> set (g_keywords s)
       then s\<lparr>g_token := [], stdout_lines := stdout_lines s @ [KeywordMatch (cstr ?w) NUL]\<rparr>
       else s\<lparr>g_token := ?w\<rparr>)"
    using process_char_token [OF assms] by (simp add: Let_def)
  have trim: "g_token (trim_token_to_max (s\<lparr>g_token := g_token s @ [tolower raw]\<rparr>)) = ?w"
    by (simp add: trim_token_to_max_eq)
  have "g_token_len (process_char raw s) \<le> g_max_keyword_len s"
    unfolding step using len by simp
  moreover have "g_token (process_char raw s) = ?w \<or>
      g_token (process_char raw s) = [] \<and>
      stdout_lines (process_char raw s) = stdout_lines s @ [KeywordMatch (cstr ?w) NUL]"
    unfolding step by simp
  ultimately show ?thesis
    unfolding Let_def trim using len by simp
qed

theorem token_buffer_window_witness:
  "g_allowed (after_typing example_json ''wxyz'') (tolower (CHR ''v'')) \<and>
   g_token_len (after_typing example_json ''wxyz'') < MAX_TOKEN_LEN \<and>
   g_max_keyword_len (after_typing example_json ''wxyz'')
     < length (g_token (after_typing example_json ''wxyz'') @ [tolower (CHR ''v'')]) \<and>
   g_token (process_char (CHR ''v'') (after_typing example_json ''wxyz'')) = ''xyzv''"
proof -
  let ?s = "after_typing example_json ''wxyz''"
  have a: "g_allowed ?s (tolower (CHR ''v''))" by code_simp
  have t: "g_token ?s = ''wxyz''" by code_simp
  have m: "g_max_keyword_len ?s = 4" by code_simp
  have k: "g_keywords ?s = [''sig'', ''sign'']" by code_simp
  have l: "tolower (CHR ''v'') = CHR ''v''" by code_simp
  have b: "g_token_len ?s < MAX_TOKEN_LEN" by (simp add: t)
  have c: "g_max_keyword_len ?s < length (g_token ?s @ [tolower (CHR ''v'')])"
    by (simp add: t m)
  have "stdout_lines (process_char (CHR ''v'') ?s) \<noteq> stdout_lines ?s @ [KeywordMatch ''xyzv'' NUL]"
    by code_simp
  with token_buffer_window [OF a b] c
  have "g_token (process_char (CHR ''v'') ?s) = ''xyzv''"
    by (auto simp add: Let_def t m l most_recent_def cstr_def)
  with a b c show ?thesis by blast
qed


text \<open>
  C4. When a delimiter \<open>d\<close> is processed, the token buffer is empty afterwards in every case;
  and one match line carrying \<open>d\<close> is printed if the buffer was not empty and equal to a
  registered keyword, nothing otherwise.
\<close>

theorem delimiter_confirms_and_clears:
  assumes "well_formed s" and "g_delimiters s d"
  shows "g_token (process_char d s) = [] \<and>
     stdout_lines (process_char d s) =
       (if g_token s \<noteq> [] \<and> g_token s \<in> set (g_keywords s)
        then stdout_lines s @ [KeywordMatch (g_token s) d] else stdout_lines s)"
proof -
  from assms have low: "tolower d = d"
    by (simp add: well_formed_def classifier_ok_def default_delimiter_lower)
  from assms have "\<not> g_allowed s d" by (auto simp add: well_formed_def classifier_ok_def)
  moreover from assms have "cstr (g_token s) = g_token s"
    by (simp add: well_formed_def cstr_id)
  ultimately show ?thesis
    using assms(2) by (simp add: process_char_delimiter low)
qed

theorem delimiter_confirms_and_clears_witness:
  "well_formed (process_key_event backspace_press (after_typing example_json ''xsigh'')) \<and>
   g_delimiters (process_key_event backspace_press (after_typing example_json ''xsigh'')) (CHR '' '') \<and>
   g_token (process_char (CHR '' '')
      (process_key_event backspace_press (after_typing example_json ''xsigh''))) = [] \<and>
   stdout_lines (process_char (CHR '' '')
      (process_key_event backspace_press (after_typing example_json ''xsigh'')))
     = [KeywordMatch ''sig'' (CHR '' '')]"
proof -
  let ?s = "process_key_event backspace_press (after_typing example_json ''xsigh'')"
  have w: "well_formed ?s"
    unfolding after_typing_def
    by (intro well_formed_process_key_event well_formed_fold_process_char well_formed_configured)
  have d: "g_delimiters ?s (CHR '' '')" by code_simp
  have t: "g_token ?s = ''sig''" by code_simp
  have k: "g_keywords ?s = [''sig'', ''sign'']" by code_simp
  have o: "stdout_lines ?s = []" by code_simp
  from delimiter_confirms_and_clears [OF w d]
  have "g_token (process_char (CHR '' '') ?s) = [] \<and>
    stdout_lines (process_char (CHR '' '') ?s) = [KeywordMatch ''sig'' (CHR '' '')]"
    by (simp add: t k o)
  with w d show ?thesis by blast
qed

text \<open>
  C6. After the tables are seeded and then widened over the registered keywords, no byte is
  both a token character and a delimiter. The widening pass adds exactly the bytes of the
  keywords that are not whitespace to the token characters and removes exactly those bytes
  from the delimiters.
\<close>

theorem classifier_tables_disjoint:
  "let s1 = snd (parse_keywords_json json (seed_charsets s));
       s2 = apply_keyword_chars_to_charsets s1
   in (\<forall>c. \<not> (g_allowed s2 c \<and> g_delimiters s2 c)) \<and>
      (\<forall>c. g_allowed s2 c = (g_allowed (seed_charsets s) c \<or> c \<in> keyword_bytes (g_keywords s1))) \<and>
      (\<forall>c. g_delimiters s2 c =
            (g_delimiters (seed_charsets s) c \<and> c \<notin> keyword_bytes (g_keywords s1))) \<and>
      keyword_bytes (g_keywords s1) \<inter> Collect whitespace = {}"
proof -
  let ?s1 = "snd (parse_keywords_json json (seed_charsets s))"
  have a: "g_allowed ?s1 = g_allowed (seed_charsets s)"
    and d: "g_delimiters ?s1 = g_delimiters (seed_charsets s)"
    by (cases json; simp add: parse_keywords_json_def Let_def parse_loop_tables)+
  have 1: "\<forall>c. \<not> (g_allowed (apply_keyword_chars_to_charsets ?s1) c \<and>
      g_delimiters (apply_keyword_chars_to_charsets ?s1) c)"
    using seed_disjoint [of s] by (auto simp add: widen_tables a d)
  have 2: "\<forall>c. g_allowed (apply_keyword_chars_to_charsets ?s1) c =
      (g_allowed (seed_charsets s) c \<or> c \<in> keyword_bytes (g_keywords ?s1))"
    by (simp add: widen_tables a)
  have 3: "\<forall>c. g_delimiters (apply_keyword_chars_to_charsets ?s1) c =
      (g_delimiters (seed_charsets s) c \<and> c \<notin> keyword_bytes (g_keywords ?s1))"
    by (simp add: widen_tables d)
  have 4: "keyword_bytes (g_keywords ?s1) \<inter> Collect whitespace = {}"
    by (auto simp add: keyword_bytes_def)
  show ?thesis
    unfolding Let_def by (intro conjI) (rule 1 2 3 4)+
qed

text \<open>
  C7. When Ctrl, Alt or one of the two Windows keys is held during a key-down event that is
  not Backspace, the event empties the token buffer and does nothing else: nothing is
  appended, nothing is printed and \<open>ToUnicodeEx\<close> is not called.
\<close>

theorem modifier_suppression:
  assumes "vk ev \<noteq> VK_BACK"
    and "bit (async_control ev) 15 \<or> bit (async_menu ev) 15 \<or>
         bit (async_lwin ev) 15 \<or> bit (async_rwin ev) 15"
  shows "process_key_event ev s = s\<lparr>g_token := []\<rparr>"
  using assms by (simp add: process_key_event_def is_modifier_down_iff clear_token_def)

theorem modifier_suppression_witness:
  "vk ctrl_c_press \<noteq> VK_BACK \<and> bit (async_control ctrl_c_press) 15 \<and>
   g_token (after_typing example_json ''si'') = ''si'' \<and>
   process_key_event ctrl_c_press (after_typing example_json ''si'')
     = (after_typing example_json ''si'')\<lparr>g_token := []\<rparr>"
proof -
  have v: "vk ctrl_c_press \<noteq> VK_BACK" by (simp add: ctrl_c_press_def)
  have b: "bit (async_control ctrl_c_press) 15" by (simp add: ctrl_c_press_def)
  have t: "g_token (after_typing example_json ''si'') = ''si''" by code_simp
  from modifier_suppression [OF v, of "after_typing example_json ''si''"] b
  have "process_key_event ctrl_c_press (after_typing example_json ''si'')
     = (after_typing example_json ''si'')\<lparr>g_token := []\<rparr>" by blast
  with v b t show ?thesis by blast
qed

text \<open>
  C9. The registry holds at most \<open>MAX_KEYWORDS\<close> keywords: whatever is registered, starting
  from the empty registry, the count does not exceed 512; and once 512 keywords are stored,
  every call of \<open>append_keyword\<close> returns 0 and changes nothing.
\<close>

theorem registry_capacity:
  "g_keyword_count (register_all srcs initial) \<le> MAX_KEYWORDS \<and>
   (g_keyword_count s \<ge> MAX_KEYWORDS \<longrightarrow> append_keyword src s = (0, s))"
proof -
  have "g_keyword_count (register_all srcs initial) \<le> MAX_KEYWORDS"
    by (rule count_register_all) (simp add: initial_def)
  moreover have "append_keyword src s = (0, s)" if "g_keyword_count s \<ge> MAX_KEYWORDS"
    using that by (cases src) (simp_all add: append_keyword_Some)
  ultimately show ?thesis by blast
qed

theorem registry_capacity_witness:
  "g_keyword_count (filled 512) \<ge> MAX_KEYWORDS \<and> distinct (g_keywords (filled 512)) \<and>
   append_keyword (Some ''extra'') (filled 512) = (0, filled 512)"
proof -
  have c: "g_keyword_count (filled 512) \<ge> MAX_KEYWORDS" by (simp add: filled_count)
  have "registry_ok (filled 512)"
    unfolding filled_def register_all_def
    by (rule fold_invariant [where Q = "\<lambda>x. True"])
      (simp_all add: registry_ok_initial registry_ok_append_keyword)
  then have d: "distinct (g_keywords (filled 512))" by (simp add: registry_ok_def)
  from registry_capacity [of "[]" "filled 512" "Some ''extra''"] c
  have "append_keyword (Some ''extra'') (filled 512) = (0, filled 512)" by blast
  with c d show ?thesis by blast
qed

text \<open>
  C5, as the code has it. \<open>append_keyword\<close> lower-cases its argument and cuts it to 128
  bytes; it returns 0 and changes nothing when the table is full or the result is empty,
  returns 1 and changes nothing when the result is already stored, and otherwise stores it,
  raises \<open>g_max_keyword_len\<close> to its length if that is longer, and returns 1. Registering the
  same text twice leaves the globals as registering it once does. The second call returns 1
  when the first did, provided the table then holds fewer than 512 keywords.
\<close>

theorem register_idempotent:
  "append_keyword (Some raw) s =
     (if g_keyword_count s \<ge> MAX_KEYWORDS then (0, s)
      else if map tolower (take MAX_KEYWORD_LEN (cstr raw)) = [] then (0, s)
      else if map tolower (take MAX_KEYWORD_LEN (cstr raw)) \<in> set (g_keywords s) then (1, s)
      else (1, s\<lparr>g_keywords := g_keywords s @ [map tolower (take MAX_KEYWORD_LEN (cstr raw))],
                  g_max_keyword_len :=
                    max (g_max_keyword_len s) (length (map tolower (take MAX_KEYWORD_LEN (cstr raw))))\<rparr>)) \<and>
   snd (append_keyword src (snd (append_keyword src s))) = snd (append_keyword src s) \<and>
   (fst (append_keyword src s) = 1 \<and> g_keyword_count (snd (append_keyword src s)) < MAX_KEYWORDS
      \<longrightarrow> fst (append_keyword src (snd (append_keyword src s))) = 1)"
proof -
  have "fst (append_keyword src (snd (append_keyword src s))) = 1"
    if "fst (append_keyword src s) = 1" "g_keyword_count (snd (append_keyword src s)) < MAX_KEYWORDS"
    using that by (cases src) (auto simp add: append_keyword_Some split: if_splits)
  then show ?thesis
    using append_keyword_Some [of raw s] append_keyword_twice [of src s]
    unfolding normalised_def by blast
qed

theorem register_idempotent_witness:
  "fst (append_keyword (Some ''Sig'') initial) = 1 \<and>
   g_keyword_count (snd (append_keyword (Some ''Sig'') initial)) < MAX_KEYWORDS \<and>
   g_keywords (snd (append_keyword (Some ''Sig'') initial)) = [''sig''] \<and>
   fst (append_keyword (Some ''Sig'') (snd (append_keyword (Some ''Sig'') initial))) = 1"
proof -
  have a: "fst (append_keyword (Some ''Sig'') initial) = 1" by code_simp
  have k: "g_keywords (snd (append_keyword (Some ''Sig'') initial)) = [''sig'']" by code_simp
  then have b: "g_keyword_count (snd (append_keyword (Some ''Sig'') initial)) < MAX_KEYWORDS"
    by simp
  from register_idempotent [of "''Sig''" initial "Some ''Sig''"] a b
  have "fst (append_keyword (Some ''Sig'') (snd (append_keyword (Some ''Sig'') initial))) = 1"
    by blast
  with a b k show ?thesis by blast
qed

text \<open>
  C5 as stated fails when the first registration fills the table: with 511 keywords stored,
  registering \<open>x\<close> returns 1 and registering it again returns 0.
\<close>

theorem register_twice_counterexample:
  "g_keyword_count (filled 511) = 511 \<and>
   fst (append_keyword (Some ''x'') (filled 511)) = 1 \<and>
   fst (append_keyword (Some ''x'') (snd (append_keyword (Some ''x'') (filled 511)))) = 0"
proof -
  have n: "normalised ''x'' = ''x''" by code_simp
  have c: "g_keyword_count (filled 511) = 511" by (simp add: filled_count)
  have f: "''x'' \<notin> set (g_keywords (filled 511))" by (rule short_not_numbered) simp
  have 1: "append_keyword (Some ''x'') (filled 511) =
      (1, (filled 511)\<lparr>g_keywords := g_keywords (filled 511) @ [''x''],
            g_max_keyword_len := max (g_max_keyword_len (filled 511)) (length ''x'')\<rparr>)"
    using c f by (simp add: append_keyword_Some n del: One_nat_def)
  have "fst (append_keyword (Some ''x'') (snd (append_keyword (Some ''x'') (filled 511)))) = 0"
    unfolding 1 using c by (simp add: append_keyword_Some)
  with c 1 show ?thesis by simp
qed

text \<open>
  C8. \<open>main\<close> prints one error line and returns 1 when the argument is missing or the
  configuration yields no keyword, prints one error line and returns 2 when the hook cannot
  be installed, and otherwise prints no error line and returns 0 once the message loop has
  ended (it has not returned while \<open>GetMessage\<close> keeps returning positive values). So an
  error line is always the last line printed and is followed by a return of 1 or 2.
\<close>

theorem exit_codes:
  "let (s, code) = main argv hook_ok msgs;
       parsed = snd (parse_keywords_json (Some (argv ! 1)) (seed_charsets initial))
   in if length argv < 2 then
        stdout_lines s = [Error ''Usage: snippet-expander-win <keywords-json>''] \<and> code = Some 1
      else if g_keyword_count parsed = 0 then
        stdout_lines s = [Error ''Invalid or empty keywords JSON''] \<and> code = Some 1
      else if \<not> hook_ok then
        stdout_lines s = [Error ''SetWindowsHookEx failed''] \<and> code = Some 2
      else
        filter is_error (stdout_lines s) = [] \<and> hd (stdout_lines s) = Ready \<and>
        code = (if \<exists>m \<in> set msgs. result m \<le> 0 then Some 0 else None)"
proof -
  let ?p = "parse_keywords_json (Some (argv ! 1)) (seed_charsets initial)"
  let ?w = "apply_keyword_chars_to_charsets (snd ?p)"
  let ?l = "message_loop msgs (emit_ready ?w)"
  have m: "main argv hook_ok msgs =
     (if length argv < 2 then
        (emit_error ''Usage: snippet-expander-win <keywords-json>'' initial, Some 1)
      else if fst ?p = 0 then (emit_error ''Invalid or empty keywords JSON'' (snd ?p), Some 1)
      else if \<not> hook_ok then (emit_error ''SetWindowsHookEx failed'' ?w, Some 2)
      else (fst ?l, if snd ?l then Some 0 else None))"
    by (simp add: main_def Let_def split_beta)
  have e: "filter is_error (stdout_lines (fst ?l)) = []"
    by (simp add: errors_message_loop emit_ready_def startup_stdout)
  obtain out where "stdout_lines (fst ?l) = stdout_lines (emit_ready ?w) @ out"
    using grows_message_loop by blast
  then have h: "hd (stdout_lines (fst ?l)) = Ready"
    by (simp add: emit_ready_def startup_stdout)
  have c1: "stdout_lines (emit_error msg initial) = [Error msg]" for msg
    by (simp add: emit_error_def initial_def)
  have c2: "stdout_lines (emit_error msg (snd ?p)) = [Error msg]" for msg
    by (simp add: emit_error_def startup_stdout)
  have c3: "stdout_lines (emit_error msg ?w) = [Error msg]" for msg
    by (simp add: emit_error_def startup_stdout)
  have z: "fst ?p = 0 \<longleftrightarrow> g_keyword_count (snd ?p) = 0"
    by (rule parse_count)
  consider (usage) "length argv < 2"
    | (empty) "\<not> length argv < 2" "g_keyword_count (snd ?p) = 0"
    | (hook) "\<not> length argv < 2" "g_keyword_count (snd ?p) \<noteq> 0" "\<not> hook_ok"
    | (run) "\<not> length argv < 2" "g_keyword_count (snd ?p) \<noteq> 0" "hook_ok"
    by blast
  then show ?thesis
  proof cases
    case usage
    then show ?thesis unfolding m Let_def by (simp add: c1 del: One_nat_def)
  next
    case empty
    then show ?thesis unfolding m Let_def by (simp add: c2 z del: One_nat_def)
  next
    case hook
    then show ?thesis unfolding m Let_def by (simp add: c3 z del: One_nat_def)
  next
    case run
    then show ?thesis unfolding m Let_def by (simp add: e h z message_loop_ended del: One_nat_def)
  qed
qed

text \<open>
  C1, as the code has it. Characters are processed from an empty buffer in a state the
  program can be in. A match line is printed for a character exactly when the run of token
  characters since the buffer was last emptied (by a character that is no token character,
  or by a match), trimmed to its most recent \<open>g_max_keyword_len\<close> characters (the length of
  the longest keyword), is a registered keyword; the line then carries that keyword and the
  sentinel delimiter.
\<close>

theorem match_iff_run_since_reset:
  assumes "well_formed s" and "g_token s = []"
  shows "(emitted_by c (fold process_char cs s) \<noteq> []) =
           (most_recent (g_max_keyword_len s)
              (run_since_reset (g_keywords s) (g_allowed s) (g_max_keyword_len s) (cs @ [c]))
            \<in> set (g_keywords s)) \<and>
         emitted_by c (fold process_char cs s) =
           match_of_run (g_keywords s) (g_allowed s) (g_max_keyword_len s) (cs @ [c])"
proof -
  let ?K = "g_keywords s" and ?tok = "g_allowed s" and ?mx = "g_max_keyword_len s"
  let ?st = "fold process_char cs s"
  let ?r = "run_since_reset ?K ?tok ?mx cs"
  have wf: "well_formed ?st" using assms(1) by (rule well_formed_fold_process_char)
  have fr: "g_keywords ?st = ?K" "g_allowed ?st = ?tok" "g_max_keyword_len ?st = ?mx"
    by (simp_all add: fold_process_char_frame)
  have tk: "g_token ?st = (if most_recent ?mx ?r \<in> set ?K then [] else most_recent ?mx ?r)"
    using engine_follows_run [OF assms, of cs] by (simp add: Let_def)
  have "emitted_by c ?st = match_of_run ?K ?tok ?mx (cs @ [c])"
  proof (cases "?tok (tolower c)")
    case False
    have "g_token ?st \<notin> set ?K"
      using tk empty_not_keyword [OF assms(1)] by (simp split: if_splits)
    moreover have "cstr (g_token ?st) = g_token ?st"
      using wf by (simp add: well_formed_def cstr_id)
    ultimately have "process_char c ?st = ?st\<lparr>g_token := []\<rparr>"
      using False by (intro break_step) (simp_all add: fr)
    then show ?thesis
      using False empty_not_keyword [OF assms(1)]
      by (simp add: emitted_by_def match_of_run_def run_since_reset_snoc Let_def most_recent_Nil)
  next
    case True
    have w: "most_recent ?mx (g_token ?st @ [tolower c]) = most_recent ?mx (run_since_reset ?K ?tok ?mx (cs @ [c]))"
      using True by (simp add: tk run_since_reset_snoc most_recent_snoc)
    have "process_char c ?st =
       (let w = most_recent ?mx (g_token ?st @ [tolower c]) in
        if w \<in> set ?K
        then ?st\<lparr>g_token := [], stdout_lines := stdout_lines ?st @ [KeywordMatch w NUL]\<rparr>
        else ?st\<lparr>g_token := w\<rparr>)"
      using token_step [OF wf] True by (simp add: fr)
    then show ?thesis
      unfolding w by (simp add: emitted_by_def match_of_run_def Let_def)
  qed
  then show ?thesis by (simp add: match_of_run_def Let_def)
qed

theorem match_iff_run_since_reset_witness:
  "well_formed (configured example_json) \<and> g_token (configured example_json) = [] \<and>
   emitted_by (CHR ''g'') (after_typing example_json ''x si'') = [KeywordMatch ''sig'' NUL] \<and>
   emitted_by (CHR ''n'') (after_typing example_json ''x sig'') = []"
proof -
  have w: "well_formed (configured example_json)" by (rule well_formed_configured)
  have t: "g_token (configured example_json) = []" by (rule configured_token)
  have e: "match_of_run (g_keywords (configured example_json)) (g_allowed (configured example_json))
      (g_max_keyword_len (configured example_json)) (''x si'' @ [CHR ''g'']) = [KeywordMatch ''sig'' NUL]"
    by code_simp
  have f: "match_of_run (g_keywords (configured example_json)) (g_allowed (configured example_json))
      (g_max_keyword_len (configured example_json)) (''x sig'' @ [CHR ''n'']) = []"
    by code_simp
  from match_iff_run_since_reset [OF w t, of "CHR ''g''" "''x si''"]
  have 1: "emitted_by (CHR ''g'') (after_typing example_json ''x si'') = [KeywordMatch ''sig'' NUL]"
    unfolding after_typing_def e by (rule conjunct2)
  from match_iff_run_since_reset [OF w t, of "CHR ''n''" "''x sig''"]
  have 2: "emitted_by (CHR ''n'') (after_typing example_json ''x sig'') = []"
    unfolding after_typing_def f by (rule conjunct2)
  from w t 1 2 show ?thesis by blast
qed

text \<open>
  C1 as stated fails in both directions, because a match empties the buffer: with the
  keywords \<open>sig\<close> and \<open>sign\<close>, after \<open>x sig\<close> the character \<open>n\<close> completes the run \<open>sign\<close>, a
  keyword, and nothing is printed; and after \<open>sigsi\<close> the character \<open>g\<close> completes the run
  \<open>sigsig\<close>, whose most recent four characters \<open>gsig\<close> are no keyword, and the match for
  \<open>sig\<close> is printed.
\<close>

theorem match_iff_plain_run_counterexample:
  "most_recent (g_max_keyword_len (configured example_json))
     (plain_run (g_allowed (configured example_json)) ''x sign'')
     \<in> set (g_keywords (configured example_json)) \<and>
   emitted_by (CHR ''n'') (after_typing example_json ''x sig'') = [] \<and>
   most_recent (g_max_keyword_len (configured example_json))
     (plain_run (g_allowed (configured example_json)) ''sigsig'')
     \<notin> set (g_keywords (configured example_json)) \<and>
   emitted_by (CHR ''g'') (after_typing example_json ''sigsi'') = [KeywordMatch ''sig'' NUL]"
  by code_simp

text \<open>
  C2, as the code has it. Let \<open>k\<close> be a registered keyword without whitespace bytes, such
  that no proper prefix of \<open>k\<close> is registered and the last character of \<open>k\<close> alone is not a
  registered keyword. Typing \<open>k\<close> from an empty buffer, then Backspace, then the last
  character of \<open>k\<close> again prints exactly one match line, the one for \<open>k\<close> with the sentinel
  delimiter, printed when \<open>k\<close> was completed: the match empties the buffer, Backspace finds
  it empty, and the retyped character starts a new token.
\<close>

theorem backspace_retype_single_match:
  assumes "well_formed s" and "g_token s = []" and "k \<in> set (g_keywords s)"
    and "\<forall>c \<in> set k. \<not> whitespace c"
    and "\<forall>n. 0 < n \<and> n < length k \<longrightarrow> take n k \<notin> set (g_keywords s)"
    and "[last k] \<notin> set (g_keywords s)"
    and "vk bs = VK_BACK"
  shows "stdout_lines (fold process_char k s) = stdout_lines s @ [KeywordMatch k NUL] \<and>
     stdout_lines (process_char (last k) (process_key_event bs (fold process_char k s)))
       = stdout_lines s @ [KeywordMatch k NUL] \<and>
     g_token (process_char (last k) (process_key_event bs (fold process_char k s))) = [last k]"
proof -
  let ?s1 = "s\<lparr>stdout_lines := stdout_lines s @ [KeywordMatch k NUL]\<rparr>"
  have typed: "fold process_char k s = ?s1"
    using assms(1-5) by (rule type_keyword)
  have erased: "process_key_event bs ?s1 = ?s1"
    using assms(2,7) by (simp add: process_key_event_def)
  have wf1: "well_formed ?s1" using assms(1) by (simp add: well_formed_stdout_update)
  from well_formed_keyword [OF assms(1,3)] have ne: "k \<noteq> []" by simp
  then have "last k \<in> set k" by simp
  with keyword_chars [OF assms(1,3,4)] have a: "g_allowed s (last k)" and l: "tolower (last k) = last k"
    by simp_all
  have "1 \<le> g_max_keyword_len s" using assms(1) by (rule well_formed_max(1))
  then have w: "most_recent (g_max_keyword_len s) [last k] = [last k]"
    by (intro most_recent_all) simp
  have "process_char (last k) ?s1 = ?s1\<lparr>g_token := [last k]\<rparr>"
    using token_step [OF wf1, of "last k"] a assms(2,6) by (simp add: Let_def l w)
  then show ?thesis by (simp add: typed erased)
qed

theorem backspace_retype_single_match_witness:
  "well_formed (configured example_json) \<and> g_token (configured example_json) = [] \<and>
   ''sig'' \<in> set (g_keywords (configured example_json)) \<and>
   \<not> whitespace (CHR ''s'') \<and> \<not> whitespace (CHR ''i'') \<and> \<not> whitespace (CHR ''g'') \<and>
   take 1 ''sig'' \<notin> set (g_keywords (configured example_json)) \<and>
   take 2 ''sig'' \<notin> set (g_keywords (configured example_json)) \<and>
   [last ''sig''] \<notin> set (g_keywords (configured example_json)) \<and>
   vk backspace_press = VK_BACK \<and>
   stdout_lines (process_char (last ''sig'')
       (process_key_event backspace_press (fold process_char ''sig'' (configured example_json))))
     = [KeywordMatch ''sig'' NUL]"
proof -
  have w: "well_formed (configured example_json)" by (rule well_formed_configured)
  have t: "g_token (configured example_json) = []" by (rule configured_token)
  have o: "stdout_lines (configured example_json) = []" by (rule configured_stdout)
  have K: "g_keywords (configured example_json) = [''sig'', ''sign'']" by code_simp
  have k: "''sig'' \<in> set (g_keywords (configured example_json))" by (simp add: K)
  have c: "\<forall>c \<in> set ''sig''. \<not> whitespace c" by (simp add: whitespace_def)
  have p: "\<forall>n. 0 < n \<and> n < length ''sig'' \<longrightarrow> take n ''sig'' \<notin> set (g_keywords (configured example_json))"
  proof (intro allI impI)
    fix n :: nat assume "0 < n \<and> n < length ''sig''"
    then have "n = 1 \<or> n = 2" by (simp, arith)
    then show "take n ''sig'' \<notin> set (g_keywords (configured example_json))"
      by (auto simp add: K)
  qed
  have l: "[last ''sig''] \<notin> set (g_keywords (configured example_json))" by (simp add: K)
  have v: "vk backspace_press = VK_BACK" by (simp add: backspace_press_def)
  from backspace_retype_single_match [OF w t k c p l v]
  have "stdout_lines (process_char (last ''sig'')
       (process_key_event backspace_press (fold process_char ''sig'' (configured example_json))))
     = [KeywordMatch ''sig'' NUL]"
    by (simp only: o append_Nil)
  moreover have "\<not> whitespace (CHR ''s'') \<and> \<not> whitespace (CHR ''i'') \<and> \<not> whitespace (CHR ''g'')"
    by (simp add: whitespace_def)
  moreover have "take 1 ''sig'' \<notin> set (g_keywords (configured example_json)) \<and>
      take 2 ''sig'' \<notin> set (g_keywords (configured example_json))"
    by (simp add: K)
  ultimately show ?thesis using w t k l v by blast
qed

text \<open>
  C2 as stated fails for a keyword whose last character alone is a registered keyword:
  with the one keyword \<open>a\<close>, typing \<open>a\<close>, Backspace, \<open>a\<close> prints two match lines.
\<close>

theorem backspace_retype_counterexample:
  "''a'' \<in> set (g_keywords (configured single_json)) \<and>
   stdout_lines (process_char (CHR ''a'')
       (process_key_event backspace_press (after_typing single_json ''a'')))
     = [KeywordMatch ''a'' NUL, KeywordMatch ''a'' NUL]"
  by code_simp


text \<open>
  C10, as the code has it. Let \<open>k1\<close> and \<open>k2\<close> be registered keywords, \<open>k1\<close> a proper prefix
  of \<open>k2\<close>, and let the characters of \<open>k2\<close> be processed from an empty buffer. If \<open>k1\<close> has
  no whitespace bytes and no registered proper prefix of its own, then processing the last
  character of \<open>k1\<close> prints the match line for \<open>k1\<close> with the sentinel delimiter and leaves
  the buffer empty. In every case, no match line for \<open>k2\<close> is printed.
\<close>

theorem prefix_keyword_shadows:
  assumes "well_formed s" and "g_token s = []"
    and "k1 \<in> set (g_keywords s)" and "k2 \<in> set (g_keywords s)"
    and "k2 = k1 @ rest" and "rest \<noteq> []"
  shows "((\<forall>c \<in> set k1. \<not> whitespace c) \<and>
          (\<forall>n. 0 < n \<and> n < length k1 \<longrightarrow> take n k1 \<notin> set (g_keywords s)) \<longrightarrow>
          fold process_char k1 s = s\<lparr>stdout_lines := stdout_lines s @ [KeywordMatch k1 NUL]\<rparr>) \<and>
         (\<forall>d. KeywordMatch k2 d \<notin>
            set (drop (length (stdout_lines s)) (stdout_lines (fold process_char k2 s))))"
proof (intro conjI impI allI)
  assume "(\<forall>c \<in> set k1. \<not> whitespace c) \<and>
          (\<forall>n. 0 < n \<and> n < length k1 \<longrightarrow> take n k1 \<notin> set (g_keywords s))"
  then show "fold process_char k1 s = s\<lparr>stdout_lines := stdout_lines s @ [KeywordMatch k1 NUL]\<rparr>"
    using type_keyword [OF assms(1-3)] by blast
next
  fix d
  let ?s1 = "fold process_char k1 s"
  have wf1: "well_formed ?s1" using assms(1) by (rule well_formed_fold_process_char)
  from well_formed_keyword [OF assms(1,3)] have ne: "k1 \<noteq> []" and low: "map tolower k1 = k1"
    by simp_all
  from run_bounds [OF assms(1), of k1] obtain a where
    l1: "g_token_len ?s1 \<le> length k1" and
    a: "stdout_lines ?s1 = stdout_lines s @ a" and
    ka: "\<forall>k d. KeywordMatch k d \<in> set a \<longrightarrow> length k \<le> length k1"
    by (auto simp add: assms(2))
  have short: "g_token_len ?s1 < length k1"
  proof (rule ccontr)
    assume "\<not> g_token_len ?s1 < length k1"
    with l1 have "g_token_len ?s1 = g_token_len s + length k1" by (simp add: assms(2))
    with run_full_growth [OF assms(1)] have "g_token ?s1 = g_token s @ map tolower k1" by blast
    then have full: "g_token ?s1 = k1" by (simp add: assms(2) low)
    let ?p = "fold process_char (butlast k1) s"
    have "well_formed ?p" using assms(1) by (rule well_formed_fold_process_char)
    then have "g_token (process_char (last k1) ?p) \<notin> set (g_keywords ?p)"
      by (rule step_not_keyword)
    moreover have "process_char (last k1) ?p = fold process_char (butlast k1 @ [last k1]) s"
      by simp
    ultimately have "g_token ?s1 \<notin> set (g_keywords s)"
      using ne by (simp add: fold_process_char_frame)
    with full assms(3) show False by simp
  qed
  from run_bounds [OF wf1, of rest] obtain b where
    b: "stdout_lines (fold process_char rest ?s1) = stdout_lines ?s1 @ b" and
    kb: "\<forall>k d. KeywordMatch k d \<in> set b \<longrightarrow> length k \<le> g_token_len ?s1 + length rest"
    by blast
  have "fold process_char k2 s = fold process_char rest ?s1" by (simp add: assms(5))
  then have out: "drop (length (stdout_lines s)) (stdout_lines (fold process_char k2 s)) = a @ b"
    by (simp add: a b)
  show "KeywordMatch k2 d \<notin>
      set (drop (length (stdout_lines s)) (stdout_lines (fold process_char k2 s)))"
  proof
    assume "KeywordMatch k2 d \<in>
      set (drop (length (stdout_lines s)) (stdout_lines (fold process_char k2 s)))"
    then consider "KeywordMatch k2 d \<in> set a" | "KeywordMatch k2 d \<in> set b"
      unfolding out by auto
    then show False
    proof cases
      case 1
      with ka have "length k2 \<le> length k1" by blast
      with assms(5,6) show False by simp
    next
      case 2
      with kb have "length k2 \<le> g_token_len ?s1 + length rest" by blast
      with short assms(5) show False by simp
    qed
  qed
qed

theorem prefix_keyword_shadows_witness:
  "well_formed (configured example_json) \<and> g_token (configured example_json) = [] \<and>
   ''sig'' \<in> set (g_keywords (configured example_json)) \<and>
   ''sign'' \<in> set (g_keywords (configured example_json)) \<and>
   ''sign'' = ''sig'' @ ''n'' \<and> ''n'' \<noteq> [] \<and>
   \<not> whitespace (CHR ''s'') \<and> \<not> whitespace (CHR ''i'') \<and> \<not> whitespace (CHR ''g'') \<and>
   take 1 ''sig'' \<notin> set (g_keywords (configured example_json)) \<and>
   take 2 ''sig'' \<notin> set (g_keywords (configured example_json)) \<and>
   fold process_char ''sig'' (configured example_json)
     = (configured example_json)\<lparr>stdout_lines := [KeywordMatch ''sig'' NUL]\<rparr> \<and>
   KeywordMatch ''sign'' NUL \<notin>
      set (stdout_lines (fold process_char ''sign'' (configured example_json)))"
proof -
  have w: "well_formed (configured example_json)" by (rule well_formed_configured)
  have t: "g_token (configured example_json) = []" by (rule configured_token)
  have o: "stdout_lines (configured example_json) = []" by (rule configured_stdout)
  have K: "g_keywords (configured example_json) = [''sig'', ''sign'']" by code_simp
  have k1: "''sig'' \<in> set (g_keywords (configured example_json))" by (simp add: K)
  have k2: "''sign'' \<in> set (g_keywords (configured example_json))" by (simp add: K)
  have e: "''sign'' = ''sig'' @ ''n''" by simp
  have r: "''n'' \<noteq> []" by simp
  have c: "\<forall>c \<in> set ''sig''. \<not> whitespace c" by (simp add: whitespace_def)
  have p: "\<forall>n. 0 < n \<and> n < length ''sig'' \<longrightarrow> take n ''sig'' \<notin> set (g_keywords (configured example_json))"
  proof (intro allI impI)
    fix n :: nat assume "0 < n \<and> n < length ''sig''"
    then have "n = 1 \<or> n = 2" by (simp, arith)
    then show "take n ''sig'' \<notin> set (g_keywords (configured example_json))"
      by (auto simp add: K)
  qed
  note inst = prefix_keyword_shadows [OF w t k1 k2 e r]
  from inst c p have 1: "fold process_char ''sig'' (configured example_json)
     = (configured example_json)\<lparr>stdout_lines := [KeywordMatch ''sig'' NUL]\<rparr>"
    by (simp only: o append_Nil)
  from inst have "\<forall>d. KeywordMatch ''sign'' d \<notin>
      set (stdout_lines (fold process_char ''sign'' (configured example_json)))"
    by (simp only: o list.size drop_0) blast
  then have 2: "KeywordMatch ''sign'' NUL \<notin>
      set (stdout_lines (fold process_char ''sign'' (configured example_json)))" ..
  have 3: "\<not> whitespace (CHR ''s'') \<and> \<not> whitespace (CHR ''i'') \<and> \<not> whitespace (CHR ''g'')"
    by (simp add: whitespace_def)
  have 4: "take 1 ''sig'' \<notin> set (g_keywords (configured example_json)) \<and>
      take 2 ''sig'' \<notin> set (g_keywords (configured example_json))"
    by (simp add: K)
  from w t k1 k2 e r 1 2 3 4 show ?thesis by blast
qed

text \<open>
  C10 as stated fails when \<open>k1\<close> has a registered proper prefix of its own: with the
  keywords \<open>a\<close>, \<open>ab\<close> and \<open>abc\<close>, typing \<open>abc\<close> prints the match for \<open>a\<close> only; no match for
  \<open>ab\<close> is printed when its last character is processed.
\<close>

theorem prefix_keyword_counterexample:
  "''ab'' \<in> set (g_keywords (configured nested_json)) \<and>
   ''abc'' \<in> set (g_keywords (configured nested_json)) \<and>
   stdout_lines (after_typing nested_json ''ab'') = [KeywordMatch ''a'' NUL] \<and>
   g_token (after_typing nested_json ''ab'') = ''b'' \<and>
   stdout_lines (after_typing nested_json ''abc'') = [KeywordMatch ''a'' NUL]"
  by code_simp

end
